theory Spec2Isabelle
  imports
    Complex_Main
    "HOL-Library.Char_ord"
    "HOL-Library.List_Lexorder"
    "HOL-Library.Sublist"
    "HOL-Library.Multiset"
    "HOL-Library.AList"
begin

section \<open>JavaScript values\<close>

text \<open>
  The library compares two JavaScript values. A number is an IEEE double; the code only
  ever tests numbers for strict equality, parses them from strings and prints them (inside
  the default array sort), so a number is modelled by the rational it denotes, with \<open>NaN\<close>
  and the two infinities apart. \<open>+0\<close> and \<open>-0\<close> are one value here: \<open>===\<close> and the
  default string form do not tell them apart either.
\<close>

datatype jsnum = NaN | Fin rat | PosInf | NegInf

text \<open>
  Arrays, objects and dates are reference values: \<open>===\<close> compares their identity, not
  their contents. Each carries the address of the heap cell it lives in; the tree below
  it is the (acyclic) contents reachable from that cell. A plain object is the ordered list
  of its own enumerable properties, as \<open>Object.keys\<close> enumerates them; the prototype chain
  is not modelled, so \<open>key in obj\<close> is membership among the own keys. Strings are lists
  of 8-bit code units.
\<close>

type_synonym addr = nat

datatype okind = RegExpObject | MapObject | SetObject

datatype jsval =
    JUndefined
  | JNull
  | JBool bool
  | JNum jsnum
  | JStr string
  | JArray addr "jsval list"
  | JObject addr "(string \<times> jsval) list"
  | JDate addr jsnum
  | JOther okind addr

datatype jstype = T_undefined | T_object | T_boolean | T_number | T_string

fun typeof :: "jsval \<Rightarrow> jstype" where
  "typeof JUndefined = T_undefined"
| "typeof JNull = T_object"
| "typeof (JBool b) = T_boolean"
| "typeof (JNum n) = T_number"
| "typeof (JStr s) = T_string"
| "typeof (JArray r xs) = T_object"
| "typeof (JObject r fs) = T_object"
| "typeof (JDate r t) = T_object"
| "typeof (JOther k r) = T_object"

text \<open>\<open>v == null\<close> holds for \<open>null\<close> and \<open>undefined\<close> only.\<close>

fun nullish :: "jsval \<Rightarrow> bool" where
  "nullish JUndefined = True"
| "nullish JNull = True"
| "nullish v = False"

fun isArray :: "jsval \<Rightarrow> bool" where
  "isArray (JArray r xs) = True"
| "isArray v = False"

fun elements :: "jsval \<Rightarrow> jsval list" where
  "elements (JArray r xs) = xs"
| "elements v = []"

fun properties :: "jsval \<Rightarrow> (string \<times> jsval) list" where
  "properties (JObject r fs) = fs"
| "properties v = []"

text \<open>Strict equality of numbers: \<open>NaN\<close> equals nothing, itself included.\<close>

definition num_eq :: "jsnum \<Rightarrow> jsnum \<Rightarrow> bool" where
  "num_eq a b = (a \<noteq> NaN \<and> a = b)"

text \<open>\<open>a === b\<close>: value equality on primitives, identity on references.\<close>

fun strict_equal :: "jsval \<Rightarrow> jsval \<Rightarrow> bool" where
  "strict_equal JUndefined JUndefined = True"
| "strict_equal JNull JNull = True"
| "strict_equal (JBool a) (JBool b) = (a = b)"
| "strict_equal (JNum a) (JNum b) = num_eq a b"
| "strict_equal (JStr a) (JStr b) = (a = b)"
| "strict_equal (JArray r xs) (JArray r' ys) = (r = r')"
| "strict_equal (JObject r fs) (JObject r' gs) = (r = r')"
| "strict_equal (JDate r t) (JDate r' u) = (r = r')"
| "strict_equal (JOther k r) (JOther k' r') = (k = k' \<and> r = r')"
| "strict_equal a b = False"

text \<open>\<open>a < b\<close> on numbers, used for \<open>context.depth < context.options.maxDepth\<close>.\<close>

fun num_less :: "jsnum \<Rightarrow> jsnum \<Rightarrow> bool" where
  "num_less (Fin a) (Fin b) = (a < b)"
| "num_less (Fin a) PosInf = True"
| "num_less NegInf (Fin b) = True"
| "num_less NegInf PosInf = True"
| "num_less a b = False"

subsection \<open>Built-ins of the host\<close>

text \<open>
  Three conversions belong to the JavaScript engine, not to the library: \<open>Number(s)\<close> on
  a string, the string form of a number (the key of the default \<open>sort()\<close>), and the time
  value of \<open>new Date(s)\<close> (\<open>NaN\<close> for an invalid date). They are parameters of the model;
  every theorem holds for any choice of them.
\<close>

record host =
  Number :: "string \<Rightarrow> jsnum"
  NumberToString :: "jsnum \<Rightarrow> string"
  DateParse :: "string \<Rightarrow> jsnum"

text \<open>\<open>s.toLowerCase()\<close> on 8-bit code units: A-Z and the Latin-1 capitals.\<close>

definition lower_char :: "char \<Rightarrow> char" where
  "lower_char c =
     (let n = of_char c :: nat
      in if (65 \<le> n \<and> n \<le> 90) \<or> (192 \<le> n \<and> n \<le> 222 \<and> n \<noteq> 215)
         then char_of (n + 32) else c)"

definition toLowerCase :: "string \<Rightarrow> string" where
  "toLowerCase s = map lower_char s"

text \<open>\<open>xs.join(sep)\<close> on an array of strings.\<close>

fun join :: "string \<Rightarrow> string list \<Rightarrow> string" where
  "join sep [] = []"
| "join sep [x] = x"
| "join sep (x # y # ys) = x @ sep @ join sep (y # ys)"

text \<open>\<open>i.toString()\<close> for an array index.\<close>

definition digit_char :: "nat \<Rightarrow> char" where
  "digit_char d = char_of (48 + d)"

fun index_toString :: "nat \<Rightarrow> string" where
  "index_toString n =
     (if n < 10 then [digit_char n] else index_toString (n div 10) @ [digit_char (n mod 10)])"

section \<open>Options, context and result\<close>

text \<open>
  \<open>DiffOptions\<close> is what the caller passes, every field optional; \<open>RequiredOptions\<close> is
  \<open>Required<DiffOptions>\<close>, the options after the merge with the defaults.
\<close>

record DiffOptions =
  opt_ignoreProperties :: "string list option"
  opt_enableTypeCoercion :: "bool option"
  opt_arrayOrderMatters :: "bool option"
  opt_maxDepth :: "jsnum option"

record RequiredOptions =
  ignoreProperties :: "string list"
  enableTypeCoercion :: bool
  arrayOrderMatters :: bool
  maxDepth :: jsnum

record ComparisonContext =
  path :: "string list"
  depth :: nat
  options :: RequiredOptions

text \<open>
  The three maps of a result hold three kinds of entry: an input value stored as it is
  (\<open>result.additions[key] = objB[key]\<close>), a pair \<open>{from, to}\<close>, or a map built by the
  engine itself, which is a fresh object literal filled key by key.
\<close>

datatype dval =
    Whole jsval
  | Change jsval jsval
  | Nested "(string \<times> dval) list"

record DiffResult =
  additions :: dval
  deletions :: dval
  updates :: dval

text \<open>
  The two errors of a call: a TypeError, thrown by \<open>Object.keys\<close> on \<open>null\<close> or
  \<open>undefined\<close>, and a RangeError, thrown by a call that finds the call stack full.
\<close>

datatype error = TypeError | RangeError

definition empty_result :: DiffResult where
  "empty_result = \<lparr>additions = Nested [], deletions = Nested [], updates = Nested []\<rparr>"

definition DEFAULT_OPTIONS :: RequiredOptions where
  "DEFAULT_OPTIONS =
     \<lparr>ignoreProperties = [], enableTypeCoercion = True, arrayOrderMatters = True,
      maxDepth = Fin 10\<rparr>"

section \<open>Comparison utilities\<close>

subsection \<open>shouldIgnoreProperty\<close>

text \<open>
  The wildcard branch escapes every regular-expression metacharacter of the pattern except
  \<open>*\<close> and turns each \<open>*\<close> into \<open>.*\<close>, so the compiled expression is a sequence of
  literal characters and \<open>.*\<close> groups, anchored at both ends. A dot of a regular
  expression matches any character but a line terminator.
\<close>

datatype rx = Lit char | AnyStar

definition wildcard_regex :: "string \<Rightarrow> rx list" where
  "wildcard_regex ignorePath = map (\<lambda>c. if c = CHR ''*'' then AnyStar else Lit c) ignorePath"

definition line_terminator :: "char \<Rightarrow> bool" where
  "line_terminator c = (c = CHR 0x0A \<or> c = CHR 0x0D)"

fun regex_test :: "rx list \<Rightarrow> string \<Rightarrow> bool" where
  "regex_test [] s = (s = [])"
| "regex_test (Lit c # rs) [] = False"
| "regex_test (Lit c # rs) (d # s) = (c = d \<and> regex_test rs s)"
| "regex_test (AnyStar # rs) [] = regex_test rs []"
| "regex_test (AnyStar # rs) (d # s) =
     (regex_test rs (d # s) \<or> (\<not> line_terminator d \<and> regex_test (AnyStar # rs) s))"

definition ignore_matches :: "string \<Rightarrow> string \<Rightarrow> bool" where
  "ignore_matches propertyPath ignorePath =
     (if ignorePath = propertyPath then True
      else if CHR ''*'' \<in> set ignorePath then regex_test (wildcard_regex ignorePath) propertyPath
      else if CHR ''.'' \<in> set ignorePath then prefix (ignorePath @ ''.'') propertyPath
      else propertyPath = ignorePath)"

definition shouldIgnoreProperty :: "string \<Rightarrow> string list \<Rightarrow> bool" where
  "shouldIgnoreProperty propertyPath ignoreProps =
     (if ignoreProps = [] then False
      else list_ex (ignore_matches propertyPath) ignoreProps)"

subsection \<open>coerceValues and comparePrimitives\<close>

text \<open>
  \<open>coerceValues\<close> returns \<open>{coercedA, coercedB, areEqual}\<close>; its only caller reads
  \<open>areEqual\<close>, which is what the function below computes. The cross-type branches are
  tried in the order of the source, and a branch whose parse fails falls through to the
  next one.
\<close>

fun coerce_number_string :: "host \<Rightarrow> jsval \<Rightarrow> jsval \<Rightarrow> bool option" where
  "coerce_number_string H (JNum a) (JStr b) =
     (let coercedB = Number H b in if coercedB \<noteq> NaN then Some (num_eq a coercedB) else None)"
| "coerce_number_string H valueA valueB = None"

fun coerce_string_number :: "host \<Rightarrow> jsval \<Rightarrow> jsval \<Rightarrow> bool option" where
  "coerce_string_number H (JStr a) (JNum b) =
     (let coercedA = Number H a in if coercedA \<noteq> NaN then Some (num_eq coercedA b) else None)"
| "coerce_string_number H valueA valueB = None"

fun coerce_boolean_string :: "jsval \<Rightarrow> jsval \<Rightarrow> bool option" where
  "coerce_boolean_string (JBool a) (JStr b) =
     (let coercedB = toLowerCase b
      in if coercedB = ''true'' \<or> coercedB = ''false'' then Some (a = (coercedB = ''true''))
         else None)"
| "coerce_boolean_string valueA valueB = None"

fun coerce_string_boolean :: "jsval \<Rightarrow> jsval \<Rightarrow> bool option" where
  "coerce_string_boolean (JStr a) (JBool b) =
     (let coercedA = toLowerCase a
      in if coercedA = ''true'' \<or> coercedA = ''false'' then Some ((coercedA = ''true'') = b)
         else None)"
| "coerce_string_boolean valueA valueB = None"

fun coerce_date_string :: "host \<Rightarrow> jsval \<Rightarrow> jsval \<Rightarrow> bool option" where
  "coerce_date_string H (JDate r t) (JStr b) =
     (let coercedB = DateParse H b in if coercedB \<noteq> NaN then Some (num_eq t coercedB) else None)"
| "coerce_date_string H valueA valueB = None"

fun coerce_string_date :: "host \<Rightarrow> jsval \<Rightarrow> jsval \<Rightarrow> bool option" where
  "coerce_string_date H (JStr a) (JDate r t) =
     (let coercedA = DateParse H a in if coercedA \<noteq> NaN then Some (num_eq coercedA t) else None)"
| "coerce_string_date H valueA valueB = None"

fun coerce_number_boolean :: "jsval \<Rightarrow> jsval \<Rightarrow> bool option" where
  "coerce_number_boolean (JNum a) (JBool b) = Some (num_eq a (if b then Fin 1 else Fin 0))"
| "coerce_number_boolean valueA valueB = None"

fun coerce_boolean_number :: "jsval \<Rightarrow> jsval \<Rightarrow> bool option" where
  "coerce_boolean_number (JBool a) (JNum b) = Some (num_eq (if a then Fin 1 else Fin 0) b)"
| "coerce_boolean_number valueA valueB = None"

definition coerceValues :: "host \<Rightarrow> jsval \<Rightarrow> jsval \<Rightarrow> bool" where
  "coerceValues H valueA valueB =
     (if nullish valueA \<and> nullish valueB then True
      else if nullish valueA \<or> nullish valueB then False
      else if typeof valueA = typeof valueB then strict_equal valueA valueB
      else case coerce_number_string H valueA valueB of Some r \<Rightarrow> r | None \<Rightarrow>
           (case coerce_string_number H valueA valueB of Some r \<Rightarrow> r | None \<Rightarrow>
           (case coerce_boolean_string valueA valueB of Some r \<Rightarrow> r | None \<Rightarrow>
           (case coerce_string_boolean valueA valueB of Some r \<Rightarrow> r | None \<Rightarrow>
           (case coerce_date_string H valueA valueB of Some r \<Rightarrow> r | None \<Rightarrow>
           (case coerce_string_date H valueA valueB of Some r \<Rightarrow> r | None \<Rightarrow>
           (case coerce_number_boolean valueA valueB of Some r \<Rightarrow> r | None \<Rightarrow>
           (case coerce_boolean_number valueA valueB of Some r \<Rightarrow> r | None \<Rightarrow>
            False))))))))"

definition comparePrimitives :: "host \<Rightarrow> jsval \<Rightarrow> jsval \<Rightarrow> bool \<Rightarrow> bool" where
  "comparePrimitives H valueA valueB coercion =
     (if strict_equal valueA valueB then True
      else if \<not> coercion then False
      else coerceValues H valueA valueB)"

subsection \<open>Property access\<close>

definition Object_keys :: "(string \<times> jsval) list \<Rightarrow> string list" where
  "Object_keys obj = map fst obj"

text \<open>\<open>key in obj\<close>\<close>

definition has_key :: "(string \<times> jsval) list \<Rightarrow> string \<Rightarrow> bool" where
  "has_key obj key = (key \<in> set (Object_keys obj))"

text \<open>\<open>obj[key]\<close>: \<open>undefined\<close> when the key is absent.\<close>

definition get :: "(string \<times> jsval) list \<Rightarrow> string \<Rightarrow> jsval" where
  "get obj key = (case map_of obj key of None \<Rightarrow> JUndefined | Some v \<Rightarrow> v)"

text \<open>\<open>xs[0]\<close> of what is left of an array: \<open>undefined\<close> past the end.\<close>

fun first :: "jsval list \<Rightarrow> jsval" where
  "first [] = JUndefined"
| "first (x # xs) = x"

fun isPlainObject :: "jsval \<Rightarrow> bool" where
  "isPlainObject (JObject r fs) = True"
| "isPlainObject v = False"

text \<open>
  \<open>Object.keys(x)\<close> throws a TypeError on \<open>null\<close> and \<open>undefined\<close>; on a string or an
  array it lists the indices, on any other primitive it is empty. The engine applies it to
  the maps of a nested result.
\<close>

fun value_keys :: "jsval \<Rightarrow> error + string list" where
  "value_keys JUndefined = Inl TypeError"
| "value_keys JNull = Inl TypeError"
| "value_keys (JObject r fs) = Inr (Object_keys fs)"
| "value_keys (JArray r xs) = Inr (map index_toString [0..<length xs])"
| "value_keys (JStr s) = Inr (map index_toString [0..<length s])"
| "value_keys v = Inr []"

fun result_keys :: "dval \<Rightarrow> error + string list" where
  "result_keys (Whole v) = value_keys v"
| "result_keys (Change a b) = Inr [''from'', ''to'']"
| "result_keys (Nested m) = Inr (map fst m)"

text \<open>\<open>Object.keys(x).length > 0\<close>\<close>

definition has_keys :: "dval \<Rightarrow> error + bool" where
  "has_keys d = (case result_keys d of Inl e \<Rightarrow> Inl e | Inr ks \<Rightarrow> Inr (length ks > 0))"

subsection \<open>The default sort\<close>

text \<open>
  \<open>[...arr].sort()\<close> without a comparator orders the elements of the copy by their string
  forms, compared code unit by code unit; it is stable and moves every \<open>undefined\<close> to the
  end. It is applied to arrays of primitives only (the string form of a reference value is
  never asked for; the last equation is there for totality).
\<close>

fun ToString :: "host \<Rightarrow> jsval \<Rightarrow> string" where
  "ToString H JUndefined = ''undefined''"
| "ToString H JNull = ''null''"
| "ToString H (JBool b) = (if b then ''true'' else ''false'')"
| "ToString H (JNum n) = NumberToString H n"
| "ToString H (JStr s) = s"
| "ToString H v = ''[object Object]''"

definition js_sort :: "host \<Rightarrow> jsval list \<Rightarrow> jsval list" where
  "js_sort H xs =
     sort_key (ToString H) (filter (\<lambda>x. x \<noteq> JUndefined) xs) @ filter (\<lambda>x. x = JUndefined) xs"

text \<open>\<open>typeof item !== 'object' || item === null\<close>\<close>

definition primitive_item :: "jsval \<Rightarrow> bool" where
  "primitive_item item = (typeof item \<noteq> T_object \<or> item = JNull)"

text \<open>
  The loop over the two sorted copies, \<open>sortedA[i]\<close> against \<open>sortedB[i]\<close> for every index of
  \<open>sortedA\<close>, leaving at the first unequal pair.
\<close>

fun compareSorted :: "host \<Rightarrow> bool \<Rightarrow> jsval list \<Rightarrow> jsval list \<Rightarrow> bool" where
  "compareSorted H coercion [] sortedB = True"
| "compareSorted H coercion (a # sortedA) sortedB =
     (if \<not> comparePrimitives H a (first sortedB) coercion then False
      else compareSorted H coercion sortedA (tl sortedB))"

section \<open>The recursive diff engine\<close>

text \<open>
  \<open>compareObjects\<close> fills the three maps of its result, three fresh object literals, key by
  key; an assignment \<open>map[key] = v\<close> replaces the entry of an existing key and appends a new
  one. The key \<open>__proto__\<close> is the exception. The maps inherit from \<open>Object.prototype\<close>, so
  for this key the assignment calls the inherited setter, which replaces the prototype of the
  map when \<open>v\<close> is an object (or \<open>null\<close>) and does nothing otherwise: the map gets no
  entry, and \<open>Object.keys\<close> of it is what it was.
\<close>

definition assign_key :: "string \<Rightarrow> dval \<Rightarrow> (string \<times> dval) list \<Rightarrow> (string \<times> dval) list" where
  "assign_key key v m = (if key = ''__proto__'' then m else AList.update key v m)"

record ObjectMaps =
  additions_map :: "(string \<times> dval) list"
  deletions_map :: "(string \<times> dval) list"
  updates_map :: "(string \<times> dval) list"

definition currentPath :: "ComparisonContext \<Rightarrow> string \<Rightarrow> string" where
  "currentPath context key =
     (if length (path context) > 0 then join ''.'' (path context) @ ''.'' @ key else key)"

text \<open>The first loop of \<open>compareObjects\<close>: deletions, over the keys of \<open>objA\<close>.\<close>

fun deletions_loop ::
  "(string \<times> jsval) list \<Rightarrow> (string \<times> jsval) list \<Rightarrow> ComparisonContext \<Rightarrow> string list \<Rightarrow>
   ObjectMaps \<Rightarrow> ObjectMaps" where
  "deletions_loop objA objB context [] result = result"
| "deletions_loop objA objB context (key # keysA) result =
     (if shouldIgnoreProperty (currentPath context key) (ignoreProperties (options context))
      then deletions_loop objA objB context keysA result
      else if \<not> has_key objB key
      then deletions_loop objA objB context keysA
             (result\<lparr>deletions_map := assign_key key (Whole (get objA key)) (deletions_map result)\<rparr>)
      else deletions_loop objA objB context keysA result)"

text \<open>
  What \<open>compareObjects\<close> does with the result of the recursive call on a pair of nested
  objects: each of the three nested maps is attached under the key when it has a key.
\<close>

definition attach_nested :: "string \<Rightarrow> DiffResult \<Rightarrow> ObjectMaps \<Rightarrow> error + ObjectMaps" where
  "attach_nested key nestedResult result =
     (case has_keys (additions nestedResult) of Inl e \<Rightarrow> Inl e | Inr hasA \<Rightarrow>
      let r1 = (if hasA then result\<lparr>additions_map :=
                   assign_key key (additions nestedResult) (additions_map result)\<rparr> else result)
      in (case has_keys (deletions nestedResult) of Inl e \<Rightarrow> Inl e | Inr hasD \<Rightarrow>
      let r2 = (if hasD then r1\<lparr>deletions_map :=
                   assign_key key (deletions nestedResult) (deletions_map r1)\<rparr> else r1)
      in (case has_keys (updates nestedResult) of Inl e \<Rightarrow> Inl e | Inr hasU \<Rightarrow>
      Inr (if hasU then r2\<lparr>updates_map :=
                   assign_key key (updates nestedResult) (updates_map r2)\<rparr> else r2))))"

text \<open>
  The test of \<open>compareArrays\<close> on the result of the recursive call on a pair of elements:
  \<open>||\<close> stops at the first map that has a key.
\<close>

definition any_difference :: "DiffResult \<Rightarrow> error + bool" where
  "any_difference diffResult =
     (case has_keys (additions diffResult) of Inl e \<Rightarrow> Inl e | Inr hasA \<Rightarrow>
      if hasA then Inr True
      else (case has_keys (deletions diffResult) of Inl e \<Rightarrow> Inl e | Inr hasD \<Rightarrow>
      if hasD then Inr True
      else has_keys (updates diffResult)))"

text \<open>\<open>typeof item !== 'object' || item === null || Array.isArray(item)\<close>\<close>

definition non_object_item :: "jsval \<Rightarrow> bool" where
  "non_object_item item = (typeof item \<noteq> T_object \<or> item = JNull \<or> isArray item)"

text \<open>\<open>typeof item === 'object' && item !== null && !Array.isArray(item)\<close>\<close>

definition object_item :: "jsval \<Rightarrow> bool" where
  "object_item item = (typeof item = T_object \<and> item \<noteq> JNull \<and> \<not> isArray item)"

text \<open>\<open>context.depth < context.options.maxDepth\<close>\<close>

definition depth_left :: "ComparisonContext \<Rightarrow> bool" where
  "depth_left context = num_less (Fin (of_nat (depth context))) (maxDepth (options context))"

definition updated :: "jsval \<Rightarrow> jsval \<Rightarrow> DiffResult" where
  "updated objA objB = empty_result\<lparr>updates := Change objA objB\<rparr>"

text \<open>
  \<open>internalDiff\<close>, \<open>compareObjects\<close> and \<open>compareArrays\<close> call one another
  (\<open>compareArrays\<close> through the \<open>internalDiff\<close> it is handed). The two loops that contain a
  recursive call are functions of the keys, respectively the elements, still to visit:
  \<open>additions_updates_loop\<close> is the second loop of \<open>compareObjects\<close>, \<open>elements_loop\<close> the
  in-order loop of \<open>compareArrays\<close> (\<open>i\<close> is the index of the first element left).
  The call stack is taken to be deep enough here; the functions with a count of the frames
  that are left follow in their own section.
\<close>

function
  internalDiff :: "host \<Rightarrow> jsval \<Rightarrow> jsval \<Rightarrow> ComparisonContext \<Rightarrow> error + DiffResult"
and
  compareObjects ::
    "host \<Rightarrow> (string \<times> jsval) list \<Rightarrow> (string \<times> jsval) list \<Rightarrow> ComparisonContext \<Rightarrow>
     error + DiffResult"
and
  additions_updates_loop ::
    "host \<Rightarrow> (string \<times> jsval) list \<Rightarrow> (string \<times> jsval) list \<Rightarrow> ComparisonContext \<Rightarrow>
     string list \<Rightarrow> ObjectMaps \<Rightarrow> error + ObjectMaps"
and
  compareArrays :: "host \<Rightarrow> jsval list \<Rightarrow> jsval list \<Rightarrow> ComparisonContext \<Rightarrow> error + bool"
and
  elements_loop ::
    "host \<Rightarrow> jsval list \<Rightarrow> jsval list \<Rightarrow> ComparisonContext \<Rightarrow> nat \<Rightarrow> error + bool"
where
  "internalDiff H objA objB context =
     (if nullish objA \<and> nullish objB then Inr empty_result
      else if nullish objA then Inr (empty_result\<lparr>additions := Whole objB\<rparr>)
      else if nullish objB then Inr (empty_result\<lparr>deletions := Whole objA\<rparr>)
      else if typeof objA \<noteq> typeof objB then
        (if enableTypeCoercion (options context) then Inr (updated objA objB)
         else Inr (updated objA objB))
      else if isArray objA \<and> isArray objB then
        (case compareArrays H (elements objA) (elements objB) context of
           Inl e \<Rightarrow> Inl e
         | Inr equal \<Rightarrow> if \<not> equal then Inr (updated objA objB) else Inr empty_result)
      else if isPlainObject objA \<and> isPlainObject objB then
        compareObjects H (properties objA) (properties objB) context
      else if \<not> comparePrimitives H objA objB (enableTypeCoercion (options context))
        then Inr (updated objA objB)
      else Inr empty_result)"
| "compareObjects H objA objB context =
     (case additions_updates_loop H objA objB context (Object_keys objB)
             (deletions_loop objA objB context (Object_keys objA)
                \<lparr>additions_map = [], deletions_map = [], updates_map = []\<rparr>) of
        Inl e \<Rightarrow> Inl e
      | Inr result \<Rightarrow>
          Inr \<lparr>additions = Nested (additions_map result),
               deletions = Nested (deletions_map result),
               updates = Nested (updates_map result)\<rparr>)"
| "additions_updates_loop H objA objB context [] result = Inr result"
| "additions_updates_loop H objA objB context (key # keysB) result =
     (if shouldIgnoreProperty (currentPath context key) (ignoreProperties (options context))
      then additions_updates_loop H objA objB context keysB result
      else if \<not> has_key objA key
      then additions_updates_loop H objA objB context keysB
             (result\<lparr>additions_map := assign_key key (Whole (get objB key)) (additions_map result)\<rparr>)
      else if depth_left context \<and> isPlainObject (get objA key) \<and> isPlainObject (get objB key)
      then
        (case internalDiff H (get objA key) (get objB key)
                (context\<lparr>depth := depth context + 1, path := path context @ [key]\<rparr>) of
           Inl e \<Rightarrow> Inl e
         | Inr nestedResult \<Rightarrow>
             (case attach_nested key nestedResult result of
                Inl e \<Rightarrow> Inl e
              | Inr result' \<Rightarrow> additions_updates_loop H objA objB context keysB result'))
      else if isArray (get objA key) \<and> isArray (get objB key)
      then
        (case compareArrays H (elements (get objA key)) (elements (get objB key))
                (context\<lparr>path := path context @ [key]\<rparr>) of
           Inl e \<Rightarrow> Inl e
         | Inr equal \<Rightarrow>
             additions_updates_loop H objA objB context keysB
               (if \<not> equal
                then result\<lparr>updates_map :=
                       assign_key key (Change (get objA key) (get objB key)) (updates_map result)\<rparr>
                else result))
      else additions_updates_loop H objA objB context keysB
             (if \<not> comparePrimitives H (get objA key) (get objB key)
                    (enableTypeCoercion (options context))
              then result\<lparr>updates_map :=
                     assign_key key (Change (get objA key) (get objB key)) (updates_map result)\<rparr>
              else result))"
| "compareArrays H arrayA arrayB context =
     (if length arrayA \<noteq> length arrayB then Inr False
      else if length arrayA = 0 then Inr True
      else if \<not> arrayOrderMatters (options context) \<and>
              list_all primitive_item arrayA \<and> list_all primitive_item arrayB
      then Inr (compareSorted H (enableTypeCoercion (options context))
                  (js_sort H arrayA) (js_sort H arrayB))
      else elements_loop H arrayA arrayB context 0)"
| "elements_loop H [] restB context i = Inr True"
| "elements_loop H (itemA # restA) restB context i =
     (if non_object_item itemA \<and> non_object_item (first restB)
      then
        (if \<not> comparePrimitives H itemA (first restB) (enableTypeCoercion (options context))
         then Inr False
         else elements_loop H restA (tl restB) context (i + 1))
      else if object_item itemA \<and> object_item (first restB) \<and> depth_left context
      then
        (case internalDiff H itemA (first restB)
                (context\<lparr>depth := depth context + 1,
                         path := path context @ [index_toString i]\<rparr>) of
           Inl e \<Rightarrow> Inl e
         | Inr diffResult \<Rightarrow>
             (case any_difference diffResult of
                Inl e \<Rightarrow> Inl e
              | Inr differs \<Rightarrow>
                  if differs then Inr False
                  else elements_loop H restA (tl restB) context (i + 1)))
      else Inr False)"
  by pat_completeness auto

text \<open>
  Every recursive call descends into the first argument: an element of the array, or the
  value of a key that \<open>objA\<close> has.
\<close>

termination
proof -
  have size_elements: "size (JArray 0 (elements a)) = size a" if "isArray a" for a
    using that by (cases a) simp_all
  have size_properties: "size (JObject 0 (properties a)) = size a" if "isPlainObject a" for a
    using that by (cases a) simp_all
  have size_map_of: "size v < size (JObject 0 obj)" if "map_of obj key = Some v"
    for obj :: "(string \<times> jsval) list" and key v
    using that by (induction obj) (auto split: if_splits)
  have size_get: "size (get obj key) < size (JObject 0 obj)" if "has_key obj key" for obj key
  proof -
    from that have "map_of obj key \<noteq> None"
      by (simp add: has_key_def Object_keys_def map_of_eq_None_iff)
    then obtain v where "map_of obj key = Some v"
      by blast
    then show ?thesis
      using size_map_of [of obj key v] by (simp add: get_def)
  qed
  show ?thesis
  proof (relation "inv_image (less_than <*lex*> less_than <*lex*> less_than)
      (case_sum
        (case_sum (\<lambda>(H, a, b, c). (size a, 3::nat, 0::nat))
                  (\<lambda>(H, oa, ob, c). (size (JObject 0 oa), 2, 0)))
        (case_sum (\<lambda>(H, oa, ob, c, ks, r). (size (JObject 0 oa), 1, length ks))
                  (case_sum (\<lambda>(H, as, bs, c). (size (JArray 0 as), 2, 0))
                            (\<lambda>(H, as, bs, c, i). (size (JArray 0 as), 1, 0)))))",
      goal_cases)
    case 1
    show ?case by (rule wf_inv_image) (intro wf_lex_prod wf_less_than)
  next
    case (2 H objA objB ctx)
    then show ?case using size_elements [of objA] by simp
  next
    case (3 H objA objB ctx)
    then show ?case using size_properties [of objA] by simp
  next
    case (4 H objA objB ctx)
    show ?case by simp
  next
    case (5 H objA objB ctx key keysB result)
    show ?case by simp
  next
    case (6 H objA objB ctx key keysB result)
    show ?case by simp
  next
    case (7 H objA objB ctx key keysB result)
    then show ?case using size_get [of objA key] by simp
  next
    case (8 H objA objB ctx key keysB result x y)
    show ?case by simp
  next
    case (9 H objA objB ctx key keysB result)
    then show ?case using size_get [of objA key] size_elements [of "get objA key"] by simp
  next
    case (10 H objA objB ctx key keysB result x)
    show ?case by simp
  next
    case (11 H objA objB ctx key keysB result)
    show ?case by simp
  next
    case (12 H arrayA arrayB ctx)
    show ?case by simp
  next
    case (13 H itemA restA restB ctx i)
    show ?case by simp
  next
    case (14 H itemA restA restB ctx i)
    show ?case by simp
  next
    case (15 H itemA restA restB ctx i x y)
    show ?case by simp
  qed
qed

declare internalDiff.simps [simp del] compareObjects.simps [simp del] compareArrays.simps [simp del]

section \<open>diff\<close>

definition mergedOptions :: "DiffOptions \<Rightarrow> RequiredOptions" where
  "mergedOptions opts =
     \<lparr>ignoreProperties =
        (case opt_ignoreProperties opts of None \<Rightarrow> ignoreProperties DEFAULT_OPTIONS | Some v \<Rightarrow> v),
      enableTypeCoercion =
        (case opt_enableTypeCoercion opts of None \<Rightarrow> enableTypeCoercion DEFAULT_OPTIONS | Some v \<Rightarrow> v),
      arrayOrderMatters =
        (case opt_arrayOrderMatters opts of None \<Rightarrow> arrayOrderMatters DEFAULT_OPTIONS | Some v \<Rightarrow> v),
      maxDepth =
        (case opt_maxDepth opts of None \<Rightarrow> maxDepth DEFAULT_OPTIONS | Some v \<Rightarrow> v)\<rparr>"

definition diff :: "host \<Rightarrow> jsval \<Rightarrow> jsval \<Rightarrow> DiffOptions \<Rightarrow> error + DiffResult" where
  "diff H objectA objectB opts =
     internalDiff H objectA objectB \<lparr>path = [], depth = 0, options = mergedOptions opts\<rparr>"

text \<open>\<open>diff(a, b)\<close> without a third argument: \<open>options = {}\<close>.\<close>

definition no_options :: DiffOptions where
  "no_options =
     \<lparr>opt_ignoreProperties = None, opt_enableTypeCoercion = None,
      opt_arrayOrderMatters = None, opt_maxDepth = None\<rparr>"

subsection \<open>A host for the examples\<close>

text \<open>
  The closed examples below need a concrete host. This one agrees with a JavaScript
  engine on the arguments the examples pass to it: \<open>Number\<close> on strings of decimal digits,
  the string form of integers, and the one date string of the test suite. It is not used
  anywhere else.
\<close>

definition is_digits :: "string \<Rightarrow> bool" where
  "is_digits s =
     (s \<noteq> [] \<and> list_all (\<lambda>c. 48 \<le> (of_char c :: nat) \<and> (of_char c :: nat) \<le> 57) s)"

definition digits_value :: "string \<Rightarrow> nat" where
  "digits_value s = foldl (\<lambda>n c. 10 * n + (of_char c - 48)) 0 s"

definition example_host :: host where
  "example_host =
     \<lparr>Number = (\<lambda>s. if is_digits s then Fin (of_nat (digits_value s)) else NaN),
      NumberToString =
        (\<lambda>n. case n of
                NaN \<Rightarrow> ''NaN'' | PosInf \<Rightarrow> ''Infinity'' | NegInf \<Rightarrow> ''-Infinity''
              | Fin q \<Rightarrow> (if q < 0 then ''-'' else []) @ index_toString (nat \<lfloor>\<bar>q\<bar>\<rfloor>)),
      DateParse = (\<lambda>s. if s = ''2023-01-01T00:00:00.000Z'' then Fin 1672531200000 else NaN)\<rparr>"

section \<open>Notions used by the properties\<close>

text \<open>
  \<open>Object.keys\<close> is defined on a map of a result unless the map is \<open>null\<close> or
  \<open>undefined\<close> stored whole.
\<close>

fun map_like :: "dval \<Rightarrow> bool" where
  "map_like (Whole v) = (\<not> nullish v)"
| "map_like d = True"

definition keys_defined :: "DiffResult \<Rightarrow> bool" where
  "keys_defined r = (map_like (additions r) \<and> map_like (deletions r) \<and> map_like (updates r))"

text \<open>
  Where an entry of a map built by \<open>compareObjects\<close> comes from. An entry under \<open>key\<close> is
  either written by one of the two loops for a key that only one of the objects has, or it
  is a pair \<open>{from, to}\<close> for a key of both, or it is a map of the result of the recursive
  call on the two values of the key, two plain objects.
\<close>

definition visited :: "ComparisonContext \<Rightarrow> string \<Rightarrow> bool" where
  "visited ctx key =
     (\<not> shouldIgnoreProperty (currentPath ctx key) (ignoreProperties (options ctx)))"

definition recursed ::
  "host \<Rightarrow> (string \<times> jsval) list \<Rightarrow> (string \<times> jsval) list \<Rightarrow> ComparisonContext \<Rightarrow>
   string \<Rightarrow> DiffResult \<Rightarrow> bool" where
  "recursed H objA objB ctx key n =
     (has_key objA key \<and> has_key objB key \<and> depth_left ctx \<and>
      isPlainObject (get objA key) \<and> isPlainObject (get objB key) \<and>
      internalDiff H (get objA key) (get objB key)
        (ctx\<lparr>depth := depth ctx + 1, path := path ctx @ [key]\<rparr>) = Inr n)"

definition addition_entry ::
  "host \<Rightarrow> (string \<times> jsval) list \<Rightarrow> (string \<times> jsval) list \<Rightarrow> ComparisonContext \<Rightarrow>
   string \<Rightarrow> dval \<Rightarrow> bool" where
  "addition_entry H objA objB ctx key e =
     (visited ctx key \<and>
      ((has_key objB key \<and> \<not> has_key objA key \<and> e = Whole (get objB key)) \<or>
       (\<exists>n. recursed H objA objB ctx key n \<and> e = additions n)))"

definition deletion_entry ::
  "host \<Rightarrow> (string \<times> jsval) list \<Rightarrow> (string \<times> jsval) list \<Rightarrow> ComparisonContext \<Rightarrow>
   string \<Rightarrow> dval \<Rightarrow> bool" where
  "deletion_entry H objA objB ctx key e =
     (visited ctx key \<and>
      ((has_key objA key \<and> \<not> has_key objB key \<and> e = Whole (get objA key)) \<or>
       (\<exists>n. recursed H objA objB ctx key n \<and> e = deletions n)))"

definition update_entry ::
  "host \<Rightarrow> (string \<times> jsval) list \<Rightarrow> (string \<times> jsval) list \<Rightarrow> ComparisonContext \<Rightarrow>
   string \<Rightarrow> dval \<Rightarrow> bool" where
  "update_entry H objA objB ctx key e =
     (visited ctx key \<and>
      ((has_key objA key \<and> has_key objB key \<and>
        \<not> (depth_left ctx \<and> isPlainObject (get objA key) \<and> isPlainObject (get objB key)) \<and>
        e = Change (get objA key) (get objB key)) \<or>
       (\<exists>n. recursed H objA objB ctx key n \<and> e = updates n)))"

definition justified ::
  "host \<Rightarrow> (string \<times> jsval) list \<Rightarrow> (string \<times> jsval) list \<Rightarrow> ComparisonContext \<Rightarrow>
   ObjectMaps \<Rightarrow> bool" where
  "justified H objA objB ctx R =
     ((\<forall>k e. map_of (additions_map R) k = Some e \<longrightarrow> addition_entry H objA objB ctx k e) \<and>
      (\<forall>k e. map_of (deletions_map R) k = Some e \<longrightarrow> deletion_entry H objA objB ctx k e) \<and>
      (\<forall>k e. map_of (updates_map R) k = Some e \<longrightarrow> update_entry H objA objB ctx k e))"

text \<open>
  An entry that is not a map built by the engine: a value stored whole, or a pair
  \<open>{from, to}\<close>.
\<close>

fun scalar :: "dval option \<Rightarrow> bool" where
  "scalar None = False"
| "scalar (Some (Nested m)) = False"
| "scalar (Some e) = True"

text \<open>
  The key paths of a result map. \<open>engine_paths\<close> follows the maps that the engine builds,
  level by level, and stops at a value stored whole or at a pair \<open>{from, to}\<close>.
  \<open>result_paths\<close> lists the key paths of the JavaScript object that the map is: it goes
  on into the stored values, through their nested plain objects.
\<close>

fun engine_paths :: "dval \<Rightarrow> string list list" where
  "engine_paths (Nested m) =
     concat (map (\<lambda>p. [fst p] # map ((#) (fst p)) (engine_paths (snd p))) m)"
| "engine_paths (Whole v) = []"
| "engine_paths (Change a b) = []"

fun value_paths :: "jsval \<Rightarrow> string list list" where
  "value_paths (JObject r fs) =
     concat (map (\<lambda>p. [fst p] # map ((#) (fst p)) (value_paths (snd p))) fs)"
| "value_paths v = []"

fun result_paths :: "dval \<Rightarrow> string list list" where
  "result_paths (Nested m) =
     concat (map (\<lambda>p. [fst p] # map ((#) (fst p)) (result_paths (snd p))) m)"
| "result_paths (Whole v) = value_paths v"
| "result_paths (Change a b) =
     ([''from''] # map ((#) ''from'') (value_paths a)) @
     ([''to''] # map ((#) ''to'') (value_paths b))"
text \<open>
  A map is clean below a path when none of its key paths, appended to that path, matches an
  ignore pattern.
\<close>

definition clean :: "string list \<Rightarrow> string list \<Rightarrow> dval \<Rightarrow> bool" where
  "clean ign pre d =
     (\<forall>ks \<in> set (engine_paths d). \<not> shouldIgnoreProperty (join ''.'' (pre @ ks)) ign)"

definition clean_maps :: "ComparisonContext \<Rightarrow> ObjectMaps \<Rightarrow> bool" where
  "clean_maps ctx R =
     (clean (ignoreProperties (options ctx)) (path ctx) (Nested (additions_map R)) \<and>
      clean (ignoreProperties (options ctx)) (path ctx) (Nested (deletions_map R)) \<and>
      clean (ignoreProperties (options ctx)) (path ctx) (Nested (updates_map R)))"

definition clean_result :: "ComparisonContext \<Rightarrow> DiffResult \<Rightarrow> bool" where
  "clean_result ctx r =
     (clean (ignoreProperties (options ctx)) (path ctx) (additions r) \<and>
      clean (ignoreProperties (options ctx)) (path ctx) (deletions r) \<and>
      clean (ignoreProperties (options ctx)) (path ctx) (updates r))"

text \<open>
  What makes \<open>diff(v, v)\<close> empty. The engine compares \<open>v\<close> with itself as far as it descends,
  \<open>n\<close> levels at most: a number must not be \<open>NaN\<close>; an element of an array must be a
  primitive other than \<open>NaN\<close> or an array (which is taken by reference, not looked into),
  or else an object that the engine can still descend into (\<open>n > 0\<close>) and that is equal to
  itself with one level less; the value of a key of an object must be a plain object
  equal to itself with one level less (when \<open>n > 0\<close>), an array equal to itself with the
  same \<open>n\<close>, or any other value but \<open>NaN\<close> (with \<open>n = 0\<close> a plain object is taken by
  reference).
\<close>

function (sequential) self_equal :: "nat \<Rightarrow> jsval \<Rightarrow> bool" where
  "self_equal n (JArray r xs) =
     list_all (\<lambda>x. if non_object_item x then strict_equal x x
                   else 0 < n \<and> self_equal (n - 1) x) xs"
| "self_equal n (JObject r fs) =
     list_all (\<lambda>key. if 0 < n \<and> isPlainObject (get fs key) then self_equal (n - 1) (get fs key)
                     else if isArray (get fs key) then self_equal n (get fs key)
                     else strict_equal (get fs key) (get fs key)) (Object_keys fs)"
| "self_equal n v = strict_equal v v"
  by pat_completeness auto

termination
proof -
  have size_map_of: "size v < size (JObject 0 obj)" if "map_of obj key = Some v"
    for obj :: "(string \<times> jsval) list" and key v
    using that by (induction obj) (auto split: if_splits)
  have size_get: "size (get obj key) < size (JObject r obj)" if "key \<in> set (Object_keys obj)"
    for obj key r
  proof -
    from that have "map_of obj key \<noteq> None"
      by (simp add: Object_keys_def map_of_eq_None_iff)
    then obtain v where "map_of obj key = Some v"
      by blast
    then show ?thesis
      using size_map_of [of obj key v] by (simp add: get_def)
  qed
  have size_value:
    "size (get obj key) < Suc (size_list (size_prod (\<lambda>x. 0) size) obj)"
    if "key \<in> set (Object_keys obj)" for obj key
    using size_get [OF that, of 0] by simp
  have size_element: "size x < Suc (size_list size xs)" if "x \<in> set xs"
    for x :: jsval and xs
    using that size_list_estimation' [of x xs "size x" size] by simp
  show ?thesis
    by (relation "measure (\<lambda>(n, v). size v)") (simp_all add: size_value size_element)
qed

definition item_equal :: "nat \<Rightarrow> jsval \<Rightarrow> bool" where
  "item_equal n x = (if non_object_item x then strict_equal x x else 0 < n \<and> self_equal (n - 1) x)"

definition value_equal :: "nat \<Rightarrow> jsval \<Rightarrow> bool" where
  "value_equal n x =
     (if 0 < n \<and> isPlainObject x then self_equal (n - 1) x
      else if isArray x then self_equal n x
      else strict_equal x x)"

text \<open>No object of the value, at any depth, has a key \<open>__proto__\<close>.\<close>

fun proto_free :: "jsval \<Rightarrow> bool" where
  "proto_free (JArray r xs) = list_all proto_free xs"
| "proto_free (JObject r fs) = list_all (\<lambda>p. fst p \<noteq> ''__proto__'' \<and> proto_free (snd p)) fs"
| "proto_free v = True"

text \<open>
  \<open>nest n v\<close> wraps \<open>v\<close> in \<open>n\<close> objects \<open>{nested: ...}\<close>, as the depth test of the test
  suite does.
\<close>

fun nest :: "nat \<Rightarrow> jsval \<Rightarrow> jsval" where
  "nest 0 v = v"
| "nest (Suc n) v = JObject n [(''nested'', nest n v)]"

text \<open>
  Two elements that the default sort does not order: both \<open>undefined\<close>, or neither and
  with the same string form.
\<close>

definition sort_tie :: "host \<Rightarrow> jsval \<Rightarrow> jsval \<Rightarrow> bool" where
  "sort_tie H x y =
     ((x = JUndefined \<and> y = JUndefined) \<or>
      (x \<noteq> JUndefined \<and> y \<noteq> JUndefined \<and> ToString H x = ToString H y))"

section \<open>The engine on a bounded call stack\<close>




text \<open>
  How far the engine can descend from a value: \<open>height\<close> is the number of arrays and
  objects nested in one another along its deepest path, and \<open>descents\<close> cuts it at the
  number of levels that \<open>maxDepth\<close> leaves to the context: none when \<open>maxDepth\<close> is \<open>NaN\<close>
  or \<open>-Infinity\<close> (\<open>depth < maxDepth\<close> is then false), any number when it is \<open>Infinity\<close>.
\<close>

definition maximum :: "nat list \<Rightarrow> nat" where
  "maximum ns = foldr max ns 0"

fun height :: "jsval \<Rightarrow> nat" where
  "height (JArray r xs) = Suc (maximum (map height xs))"
| "height (JObject r fs) = Suc (maximum (map (\<lambda>p. height (snd p)) fs))"
| "height v = 0"

definition descents :: "ComparisonContext \<Rightarrow> jsval \<Rightarrow> nat" where
  "descents context v =
     (case maxDepth (options context) of
        Fin m \<Rightarrow> min (height v) (nat \<lceil>m\<rceil> - depth context)
      | PosInf \<Rightarrow> height v
      | _ \<Rightarrow> 0)"

text \<open>
  A run \<open>x\<close> on a bounded stack agrees with the run \<open>y\<close> on an unbounded one: it fails by
  exhausting the stack or it is \<open>y\<close>, and it is \<open>y\<close> when \<open>need\<close> frames are left.
\<close>

definition agree :: "nat \<Rightarrow> nat \<Rightarrow> error + 'a \<Rightarrow> error + 'a \<Rightarrow> bool" where
  "agree need s x y = ((x = Inl RangeError \<or> x = y) \<and> (need \<le> s \<longrightarrow> x = y))"

section \<open>The engine on an explicit store\<close>

text \<open>
  To state what a call leaves unchanged, the engine is run on a store. A value is a
  primitive or the address of a cell; a cell holds an object, an array, a date, another
  opaque object, or the options object of the caller. The store is the list of the cells
  allocated so far, a cell's address is its index, and allocation appends a cell. An
  address outside the store does not occur in a store built by a program; it is read as
  an opaque object. Reading a property or an element runs no code: the objects are data,
  without accessor properties or proxies.
\<close>

datatype hval = HUndefined | HNull | HBool bool | HNum jsnum | HStr string | HRef addr

datatype cell =
    ObjectCell "(string \<times> hval) list"
  | ArrayCell "hval list"
  | DateCell jsnum
  | OtherCell okind
  | OptionsCell DiffOptions

type_synonym heap = "cell list"

definition cell_at :: "heap \<Rightarrow> addr \<Rightarrow> cell" where
  "cell_at h a = (if a < length h then h ! a else OtherCell MapObject)"

definition alloc :: "cell \<Rightarrow> heap \<Rightarrow> addr \<times> heap" where
  "alloc c h = (length h, h @ [c])"

text \<open>
  The tests on a value (\<open>typeof\<close>, \<open>== null\<close>, \<open>Array.isArray\<close>, \<open>isPlainObject\<close>, \<open>===\<close>,
  the coercions) look at the kind of the value, at its address and at the time of a date,
  never at the properties of an object or the elements of an array. They are applied to
  the view of the value, which has just that.
\<close>

fun view :: "heap \<Rightarrow> hval \<Rightarrow> jsval" where
  "view h HUndefined = JUndefined"
| "view h HNull = JNull"
| "view h (HBool b) = JBool b"
| "view h (HNum n) = JNum n"
| "view h (HStr s) = JStr s"
| "view h (HRef a) =
     (case cell_at h a of
        ObjectCell ps \<Rightarrow> JObject a []
      | ArrayCell xs \<Rightarrow> JArray a []
      | DateCell t \<Rightarrow> JDate a t
      | OtherCell k \<Rightarrow> JOther k a
      | OptionsCell opts \<Rightarrow> JObject a [])"

text \<open>The properties of an object and the elements of an array are read from the store.\<close>

fun properties_h :: "heap \<Rightarrow> hval \<Rightarrow> (string \<times> hval) list" where
  "properties_h h (HRef a) = (case cell_at h a of ObjectCell ps \<Rightarrow> ps | _ \<Rightarrow> [])"
| "properties_h h v = []"

fun elements_h :: "heap \<Rightarrow> hval \<Rightarrow> hval list" where
  "elements_h h (HRef a) = (case cell_at h a of ArrayCell xs \<Rightarrow> xs | _ \<Rightarrow> [])"
| "elements_h h v = []"

definition keys_h :: "heap \<Rightarrow> hval \<Rightarrow> string list" where
  "keys_h h obj = map fst (properties_h h obj)"

definition has_key_h :: "heap \<Rightarrow> hval \<Rightarrow> string \<Rightarrow> bool" where
  "has_key_h h obj key = (key \<in> set (keys_h h obj))"

definition get_h :: "heap \<Rightarrow> hval \<Rightarrow> string \<Rightarrow> hval" where
  "get_h h obj key = (case map_of (properties_h h obj) key of None \<Rightarrow> HUndefined | Some v \<Rightarrow> v)"

text \<open>\<open>xs[i]\<close>: \<open>undefined\<close> past the end.\<close>

definition item_h :: "hval list \<Rightarrow> nat \<Rightarrow> hval" where
  "item_h xs i = (if i < length xs then xs ! i else HUndefined)"

text \<open>
  \<open>target[key] = v\<close> writes the cell of the target object. The engine only assigns to
  object literals; assigning to anything else is outside the model. For the key
  \<open>__proto__\<close> the assignment sets the prototype of the target, which is not part of a
  cell, and leaves its properties as they are.
\<close>

fun assign :: "hval \<Rightarrow> string \<Rightarrow> hval \<Rightarrow> heap \<Rightarrow> heap option" where
  "assign (HRef a) key v h =
     (if a < length h
      then (case h ! a of
              ObjectCell ps \<Rightarrow>
                Some (if key = ''__proto__'' then h
                      else h[a := ObjectCell (AList.update key v ps)])
            | _ \<Rightarrow> None)
      else None)"
| "assign target key v h = None"

text \<open>
  A result is the object \<open>{additions, deletions, updates}\<close>; its three properties are
  values, at first the addresses of three new empty objects.
\<close>

record HResult =
  h_additions :: hval
  h_deletions :: hval
  h_updates :: hval

definition new_result :: "heap \<Rightarrow> HResult \<times> heap" where
  "new_result h =
     (case alloc (ObjectCell []) h of (a, h1) \<Rightarrow>
      (case alloc (ObjectCell []) h1 of (d, h2) \<Rightarrow>
       (case alloc (ObjectCell []) h2 of (u, h3) \<Rightarrow>
          (\<lparr>h_additions = HRef a, h_deletions = HRef d, h_updates = HRef u\<rparr>, h3))))"

text \<open>\<open>{from: a, to: b}\<close>\<close>

definition from_to :: "hval \<Rightarrow> hval \<Rightarrow> heap \<Rightarrow> hval \<times> heap" where
  "from_to a b h =
     (case alloc (ObjectCell [(''from'', a), (''to'', b)]) h of (u, h1) \<Rightarrow> (HRef u, h1))"

text \<open>\<open>Object.keys(x).length > 0\<close>, a TypeError (\<open>None\<close>) on \<open>null\<close> and \<open>undefined\<close>.\<close>

fun has_keys_h :: "heap \<Rightarrow> hval \<Rightarrow> bool option" where
  "has_keys_h h HUndefined = None"
| "has_keys_h h HNull = None"
| "has_keys_h h (HStr s) = Some (s \<noteq> [])"
| "has_keys_h h (HRef a) =
     (case cell_at h a of
        ObjectCell ps \<Rightarrow> Some (ps \<noteq> [])
      | ArrayCell xs \<Rightarrow> Some (xs \<noteq> [])
      | _ \<Rightarrow> Some False)"
| "has_keys_h h v = Some False"

definition any_difference_h :: "heap \<Rightarrow> HResult \<Rightarrow> bool option" where
  "any_difference_h h diffResult =
     (case has_keys_h h (h_additions diffResult) of None \<Rightarrow> None | Some hasA \<Rightarrow>
      if hasA then Some True
      else (case has_keys_h h (h_deletions diffResult) of None \<Rightarrow> None | Some hasD \<Rightarrow>
      if hasD then Some True
      else has_keys_h h (h_updates diffResult)))"

definition attach_nested_h :: "string \<Rightarrow> HResult \<Rightarrow> HResult \<Rightarrow> heap \<Rightarrow> heap option" where
  "attach_nested_h key nestedResult result h =
     (case has_keys_h h (h_additions nestedResult) of None \<Rightarrow> None | Some hasA \<Rightarrow>
      (case (if hasA then assign (h_additions result) key (h_additions nestedResult) h
             else Some h) of None \<Rightarrow> None | Some h1 \<Rightarrow>
      (case has_keys_h h1 (h_deletions nestedResult) of None \<Rightarrow> None | Some hasD \<Rightarrow>
      (case (if hasD then assign (h_deletions result) key (h_deletions nestedResult) h1
             else Some h1) of None \<Rightarrow> None | Some h2 \<Rightarrow>
      (case has_keys_h h2 (h_updates nestedResult) of None \<Rightarrow> None | Some hasU \<Rightarrow>
       if hasU then assign (h_updates result) key (h_updates nestedResult) h2
       else Some h2)))))"

text \<open>
  \<open>[...arr]\<close> allocates a new array with the elements of \<open>arr\<close>; \<open>.sort()\<close> sorts the array
  it is called on in place, and so writes its cell.
\<close>

definition js_sort_h :: "host \<Rightarrow> heap \<Rightarrow> hval list \<Rightarrow> hval list" where
  "js_sort_h H h xs =
     sort_key (\<lambda>v. ToString H (view h v)) (filter (\<lambda>x. x \<noteq> HUndefined) xs) @
     filter (\<lambda>x. x = HUndefined) xs"

definition spread :: "hval \<Rightarrow> heap \<Rightarrow> hval \<times> heap" where
  "spread arr h = (case alloc (ArrayCell (elements_h h arr)) h of (a, h1) \<Rightarrow> (HRef a, h1))"

fun sort_in_place :: "host \<Rightarrow> hval \<Rightarrow> heap \<Rightarrow> heap" where
  "sort_in_place H (HRef a) h =
     (if a < length h
      then (case h ! a of ArrayCell xs \<Rightarrow> h[a := ArrayCell (js_sort_h H h xs)] | _ \<Rightarrow> h)
      else h)"
| "sort_in_place H v h = h"

text \<open>The first loop of \<open>compareObjects\<close>.\<close>

fun deletions_loop_h ::
  "hval \<Rightarrow> hval \<Rightarrow> ComparisonContext \<Rightarrow> string list \<Rightarrow> HResult \<Rightarrow> heap \<Rightarrow> heap option" where
  "deletions_loop_h objA objB context [] result h = Some h"
| "deletions_loop_h objA objB context (key # keysA) result h =
     (if shouldIgnoreProperty (currentPath context key) (ignoreProperties (options context))
      then deletions_loop_h objA objB context keysA result h
      else if \<not> has_key_h h objB key
      then (case assign (h_deletions result) key (get_h h objA key) h of
              None \<Rightarrow> None
            | Some h1 \<Rightarrow> deletions_loop_h objA objB context keysA result h1)
      else deletions_loop_h objA objB context keysA result h)"

text \<open>
  The recursion may go on for ever on a store with cycles, so the functions take fuel: each
  call uses one unit, and \<open>None\<close> is the result of a call that runs out of it (or that
  throws). The values of a key, \<open>valueA\<close> and \<open>valueB\<close>, are read once, from the store
  at the start of the iteration. The objects that the engine allocates and only reads
  afterwards (the contexts and their paths, the arrays of keys, the merged options) are
  values of the model, not cells.
\<close>

function
  internalDiff_h ::
    "nat \<Rightarrow> host \<Rightarrow> hval \<Rightarrow> hval \<Rightarrow> ComparisonContext \<Rightarrow> heap \<Rightarrow> (HResult \<times> heap) option"
and
  compareObjects_h ::
    "nat \<Rightarrow> host \<Rightarrow> hval \<Rightarrow> hval \<Rightarrow> ComparisonContext \<Rightarrow> heap \<Rightarrow> (HResult \<times> heap) option"
and
  additions_updates_loop_h ::
    "nat \<Rightarrow> host \<Rightarrow> hval \<Rightarrow> hval \<Rightarrow> ComparisonContext \<Rightarrow> string list \<Rightarrow> HResult \<Rightarrow> heap \<Rightarrow>
     heap option"
and
  compareArrays_h ::
    "nat \<Rightarrow> host \<Rightarrow> hval \<Rightarrow> hval \<Rightarrow> ComparisonContext \<Rightarrow> heap \<Rightarrow> (bool \<times> heap) option"
and
  elements_loop_h ::
    "nat \<Rightarrow> host \<Rightarrow> hval \<Rightarrow> hval \<Rightarrow> ComparisonContext \<Rightarrow> nat \<Rightarrow> heap \<Rightarrow> (bool \<times> heap) option"
where
  "internalDiff_h 0 H objA objB context h = None"
| "internalDiff_h (Suc n) H objA objB context h =
     (case new_result h of (result, h1) \<Rightarrow>
      if nullish (view h1 objA) \<and> nullish (view h1 objB) then Some (result, h1)
      else if nullish (view h1 objA) then Some (result\<lparr>h_additions := objB\<rparr>, h1)
      else if nullish (view h1 objB) then Some (result\<lparr>h_deletions := objA\<rparr>, h1)
      else if typeof (view h1 objA) \<noteq> typeof (view h1 objB) then
        (case from_to objA objB h1 of (u, h2) \<Rightarrow> Some (result\<lparr>h_updates := u\<rparr>, h2))
      else if isArray (view h1 objA) \<and> isArray (view h1 objB) then
        (case compareArrays_h n H objA objB context h1 of
           None \<Rightarrow> None
         | Some (equal, h2) \<Rightarrow>
             if \<not> equal
             then (case from_to objA objB h2 of (u, h3) \<Rightarrow> Some (result\<lparr>h_updates := u\<rparr>, h3))
             else Some (result, h2))
      else if isPlainObject (view h1 objA) \<and> isPlainObject (view h1 objB) then
        compareObjects_h n H objA objB context h1
      else if \<not> comparePrimitives H (view h1 objA) (view h1 objB)
                  (enableTypeCoercion (options context))
        then (case from_to objA objB h1 of (u, h2) \<Rightarrow> Some (result\<lparr>h_updates := u\<rparr>, h2))
      else Some (result, h1))"
| "compareObjects_h 0 H objA objB context h = None"
| "compareObjects_h (Suc n) H objA objB context h =
     (case new_result h of (result, h1) \<Rightarrow>
      (case deletions_loop_h objA objB context (keys_h h1 objA) result h1 of
         None \<Rightarrow> None
       | Some h2 \<Rightarrow>
           (case additions_updates_loop_h n H objA objB context (keys_h h1 objB) result h2 of
              None \<Rightarrow> None
            | Some h3 \<Rightarrow> Some (result, h3))))"
| "additions_updates_loop_h 0 H objA objB context keysB result h = None"
| "additions_updates_loop_h (Suc n) H objA objB context keys result h =
     (case keys of [] \<Rightarrow> Some h | key # keysB \<Rightarrow>
      if shouldIgnoreProperty (currentPath context key) (ignoreProperties (options context))
      then additions_updates_loop_h n H objA objB context keysB result h
      else if \<not> has_key_h h objA key
      then (case assign (h_additions result) key (get_h h objB key) h of
              None \<Rightarrow> None
            | Some h1 \<Rightarrow> additions_updates_loop_h n H objA objB context keysB result h1)
      else if depth_left context \<and> isPlainObject (view h (get_h h objA key)) \<and>
              isPlainObject (view h (get_h h objB key))
      then
        (case internalDiff_h n H (get_h h objA key) (get_h h objB key)
                (context\<lparr>depth := depth context + 1, path := path context @ [key]\<rparr>) h of
           None \<Rightarrow> None
         | Some (nestedResult, h1) \<Rightarrow>
             (case attach_nested_h key nestedResult result h1 of
                None \<Rightarrow> None
              | Some h2 \<Rightarrow> additions_updates_loop_h n H objA objB context keysB result h2))
      else if isArray (view h (get_h h objA key)) \<and> isArray (view h (get_h h objB key))
      then
        (case compareArrays_h n H (get_h h objA key) (get_h h objB key)
                (context\<lparr>path := path context @ [key]\<rparr>) h of
           None \<Rightarrow> None
         | Some (equal, h1) \<Rightarrow>
             if \<not> equal
             then (case from_to (get_h h objA key) (get_h h objB key) h1 of (u, h2) \<Rightarrow>
                   (case assign (h_updates result) key u h2 of
                      None \<Rightarrow> None
                    | Some h3 \<Rightarrow> additions_updates_loop_h n H objA objB context keysB result h3))
             else additions_updates_loop_h n H objA objB context keysB result h1)
      else if \<not> comparePrimitives H (view h (get_h h objA key)) (view h (get_h h objB key))
                  (enableTypeCoercion (options context))
      then (case from_to (get_h h objA key) (get_h h objB key) h of (u, h1) \<Rightarrow>
            (case assign (h_updates result) key u h1 of
               None \<Rightarrow> None
             | Some h2 \<Rightarrow> additions_updates_loop_h n H objA objB context keysB result h2))
      else additions_updates_loop_h n H objA objB context keysB result h)"
| "compareArrays_h 0 H arrayA arrayB context h = None"
| "compareArrays_h (Suc n) H arrayA arrayB context h =
     (if length (elements_h h arrayA) \<noteq> length (elements_h h arrayB) then Some (False, h)
      else if length (elements_h h arrayA) = 0 then Some (True, h)
      else if \<not> arrayOrderMatters (options context) \<and>
              list_all (\<lambda>item. primitive_item (view h item)) (elements_h h arrayA) \<and>
              list_all (\<lambda>item. primitive_item (view h item)) (elements_h h arrayB)
      then
        (case spread arrayA h of (copyA, h1) \<Rightarrow>
         (case spread arrayB (sort_in_place H copyA h1) of (copyB, h2) \<Rightarrow>
           Some (compareSorted H (enableTypeCoercion (options context))
                   (map (view (sort_in_place H copyB h2))
                      (elements_h (sort_in_place H copyB h2) copyA))
                   (map (view (sort_in_place H copyB h2))
                      (elements_h (sort_in_place H copyB h2) copyB)),
                 sort_in_place H copyB h2)))
      else elements_loop_h n H arrayA arrayB context 0 h)"
| "elements_loop_h 0 H arrayA arrayB context i h = None"
| "elements_loop_h (Suc n) H arrayA arrayB context i h =
     (if i < length (elements_h h arrayA)
      then
        (if non_object_item (view h (item_h (elements_h h arrayA) i)) \<and>
            non_object_item (view h (item_h (elements_h h arrayB) i))
         then
           (if \<not> comparePrimitives H (view h (item_h (elements_h h arrayA) i))
                    (view h (item_h (elements_h h arrayB) i))
                    (enableTypeCoercion (options context))
            then Some (False, h)
            else elements_loop_h n H arrayA arrayB context (i + 1) h)
         else if object_item (view h (item_h (elements_h h arrayA) i)) \<and>
                 object_item (view h (item_h (elements_h h arrayB) i)) \<and> depth_left context
         then
           (case internalDiff_h n H (item_h (elements_h h arrayA) i)
                   (item_h (elements_h h arrayB) i)
                   (context\<lparr>depth := depth context + 1,
                            path := path context @ [index_toString i]\<rparr>) h of
              None \<Rightarrow> None
            | Some (diffResult, h1) \<Rightarrow>
                (case any_difference_h h1 diffResult of
                   None \<Rightarrow> None
                 | Some differs \<Rightarrow>
                     if differs then Some (False, h1)
                     else elements_loop_h n H arrayA arrayB context (i + 1) h1))
         else Some (False, h))
      else Some (True, h))"
  by pat_completeness auto

termination
  by (relation "measure (case_sum
        (case_sum (\<lambda>(n, x). n) (\<lambda>(n, x). n))
        (case_sum (\<lambda>(n, x). n) (case_sum (\<lambda>(n, x). n) (\<lambda>(n, x). n))))") simp_all

text \<open>
  \<open>diff\<close> reads the options object of the caller, when there is one, and merges it into a
  new one.
\<close>

fun options_of :: "heap \<Rightarrow> hval \<Rightarrow> DiffOptions option" where
  "options_of h HUndefined = Some no_options"
| "options_of h (HRef a) = (case cell_at h a of OptionsCell opts \<Rightarrow> Some opts | _ \<Rightarrow> None)"
| "options_of h v = None"

definition diff_h ::
  "nat \<Rightarrow> host \<Rightarrow> hval \<Rightarrow> hval \<Rightarrow> hval \<Rightarrow> heap \<Rightarrow> (HResult \<times> heap) option" where
  "diff_h n H objectA objectB opts h =
     (case options_of h opts of
        None \<Rightarrow> None
      | Some o' \<Rightarrow>
          internalDiff_h n H objectA objectB
            \<lparr>path = [], depth = 0, options = mergedOptions o'\<rparr> h)"

text \<open>A store \<open>h'\<close> preserves \<open>h\<close> when every cell of \<open>h\<close> is in \<open>h'\<close> with the same contents.\<close>

definition preserves :: "heap \<Rightarrow> heap \<Rightarrow> bool" where
  "preserves h h' = (length h \<le> length h' \<and> (\<forall>a < length h. h' ! a = h ! a))"

text \<open>The three maps of a result are new with respect to a store.\<close>

definition fresh_maps :: "heap \<Rightarrow> HResult \<Rightarrow> bool" where
  "fresh_maps hb result =
     (\<exists>a d u. result = \<lparr>h_additions = HRef a, h_deletions = HRef d, h_updates = HRef u\<rparr> \<and>
              length hb \<le> a \<and> length hb \<le> d \<and> length hb \<le> u)"

text \<open>
  A store for a closed example: \<open>{tags: ["ts", "js"], user: {age: 30}}\<close> at address 0,
  \<open>{tags: ["js", "ts"], user: {age: 31}}\<close> at address 3 and the options
  \<open>{arrayOrderMatters: false}\<close> at address 6.
\<close>

definition example_store :: heap where
  "example_store =
     [ObjectCell [(''tags'', HRef 1), (''user'', HRef 2)],
      ArrayCell [HStr ''ts'', HStr ''js''],
      ObjectCell [(''age'', HNum (Fin 30))],
      ObjectCell [(''tags'', HRef 4), (''user'', HRef 5)],
      ArrayCell [HStr ''js'', HStr ''ts''],
      ObjectCell [(''age'', HNum (Fin 31))],
      OptionsCell (no_options\<lparr>opt_arrayOrderMatters := Some False\<rparr>)]"

text \<open>The cells that the call of the example allocates, as the call leaves them.\<close>

definition example_allocated :: heap where
  "example_allocated =
     [ObjectCell [], ObjectCell [], ObjectCell [], ObjectCell [], ObjectCell [],
      ObjectCell [(''user'', HRef 20)],
      ArrayCell [HStr ''js'', HStr ''ts''], ArrayCell [HStr ''js'', HStr ''ts''],
      ObjectCell [], ObjectCell [], ObjectCell [], ObjectCell [], ObjectCell [],
      ObjectCell [(''age'', HRef 21)],
      ObjectCell [(''from'', HNum (Fin 30)), (''to'', HNum (Fin 31))]]"

section \<open>Basic facts\<close>

lemmas options_defs = diff_def mergedOptions_def no_options_def DEFAULT_OPTIONS_def

lemmas object_defs = Object_keys_def has_key_def get_def currentPath_def

lemma map_of_assign_key:
  "map_of (assign_key k v m) = (if k = ''__proto__'' then map_of m else (map_of m)(k \<mapsto> v))"
  by (simp add: assign_key_def update_conv')

lemma typeof_isPlainObject: "isPlainObject a \<Longrightarrow> typeof a = T_object"
  by (cases a) simp_all

lemma typeof_isArray: "isArray a \<Longrightarrow> typeof a = T_object"
  by (cases a) simp_all

lemma internalDiff_objects:
  "internalDiff H (JObject r fs) (JObject r' gs) context = compareObjects H fs gs context"
  by (simp add: internalDiff.simps)

lemma comparePrimitives_NaN: "comparePrimitives H (JNum NaN) (JNum NaN) c = False"
  by (simp add: comparePrimitives_def coerceValues_def num_eq_def)

lemma example_host_Number_30: "Number example_host ''30'' = Fin 30"
  by (simp add: example_host_def is_digits_def digits_value_def)

section \<open>The branches of the engine\<close>

text \<open>
  One equation for each branch of \<open>internalDiff\<close>, \<open>compareArrays\<close> and the two loops, and
  a case rule for each that lists the branches in the order of the source.
\<close>

declare additions_updates_loop.simps(2) [simp del] elements_loop.simps(2) [simp del]

lemma key_cases [case_names ignored addition nested array primitive]:
  obtains
    "shouldIgnoreProperty (currentPath ctx key) (ignoreProperties (options ctx))"
  | "\<not> shouldIgnoreProperty (currentPath ctx key) (ignoreProperties (options ctx))"
    "\<not> has_key objA key"
  | "\<not> shouldIgnoreProperty (currentPath ctx key) (ignoreProperties (options ctx))"
    "has_key objA key"
    "depth_left ctx \<and> isPlainObject (get objA key) \<and> isPlainObject (get objB key)"
  | "\<not> shouldIgnoreProperty (currentPath ctx key) (ignoreProperties (options ctx))"
    "has_key objA key"
    "\<not> (depth_left ctx \<and> isPlainObject (get objA key) \<and> isPlainObject (get objB key))"
    "isArray (get objA key) \<and> isArray (get objB key)"
  | "\<not> shouldIgnoreProperty (currentPath ctx key) (ignoreProperties (options ctx))"
    "has_key objA key"
    "\<not> (depth_left ctx \<and> isPlainObject (get objA key) \<and> isPlainObject (get objB key))"
    "\<not> (isArray (get objA key) \<and> isArray (get objB key))"
  by blast

lemma step_ignored:
  "shouldIgnoreProperty (currentPath ctx key) (ignoreProperties (options ctx)) \<Longrightarrow>
   additions_updates_loop H objA objB ctx (key # keysB) result =
   additions_updates_loop H objA objB ctx keysB result"
  by (simp only: additions_updates_loop.simps(2) simp_thms if_True if_False)

lemma step_addition:
  "\<not> shouldIgnoreProperty (currentPath ctx key) (ignoreProperties (options ctx)) \<Longrightarrow>
   \<not> has_key objA key \<Longrightarrow>
   additions_updates_loop H objA objB ctx (key # keysB) result =
   additions_updates_loop H objA objB ctx keysB
     (result\<lparr>additions_map := assign_key key (Whole (get objB key)) (additions_map result)\<rparr>)"
  by (simp only: additions_updates_loop.simps(2) simp_thms if_True if_False)

lemma step_nested:
  "\<not> shouldIgnoreProperty (currentPath ctx key) (ignoreProperties (options ctx)) \<Longrightarrow>
   has_key objA key \<Longrightarrow>
   depth_left ctx \<and> isPlainObject (get objA key) \<and> isPlainObject (get objB key) \<Longrightarrow>
   additions_updates_loop H objA objB ctx (key # keysB) result =
   (case internalDiff H (get objA key) (get objB key)
           (ctx\<lparr>depth := depth ctx + 1, path := path ctx @ [key]\<rparr>) of
      Inl e \<Rightarrow> Inl e
    | Inr nestedResult \<Rightarrow>
        (case attach_nested key nestedResult result of
           Inl e \<Rightarrow> Inl e
         | Inr result' \<Rightarrow> additions_updates_loop H objA objB ctx keysB result'))"
  by (simp only: additions_updates_loop.simps(2) simp_thms if_True if_False)

lemma step_array:
  "\<not> shouldIgnoreProperty (currentPath ctx key) (ignoreProperties (options ctx)) \<Longrightarrow>
   has_key objA key \<Longrightarrow>
   \<not> (depth_left ctx \<and> isPlainObject (get objA key) \<and> isPlainObject (get objB key)) \<Longrightarrow>
   isArray (get objA key) \<and> isArray (get objB key) \<Longrightarrow>
   additions_updates_loop H objA objB ctx (key # keysB) result =
   (case compareArrays H (elements (get objA key)) (elements (get objB key))
           (ctx\<lparr>path := path ctx @ [key]\<rparr>) of
      Inl e \<Rightarrow> Inl e
    | Inr equal \<Rightarrow>
        additions_updates_loop H objA objB ctx keysB
          (if \<not> equal
           then result\<lparr>updates_map :=
                  assign_key key (Change (get objA key) (get objB key)) (updates_map result)\<rparr>
           else result))"
  by (simp only: additions_updates_loop.simps(2) simp_thms if_True if_False)

lemma step_primitive:
  "\<not> shouldIgnoreProperty (currentPath ctx key) (ignoreProperties (options ctx)) \<Longrightarrow>
   has_key objA key \<Longrightarrow>
   \<not> (depth_left ctx \<and> isPlainObject (get objA key) \<and> isPlainObject (get objB key)) \<Longrightarrow>
   \<not> (isArray (get objA key) \<and> isArray (get objB key)) \<Longrightarrow>
   additions_updates_loop H objA objB ctx (key # keysB) result =
   additions_updates_loop H objA objB ctx keysB
     (if \<not> comparePrimitives H (get objA key) (get objB key) (enableTypeCoercion (options ctx))
      then result\<lparr>updates_map :=
             assign_key key (Change (get objA key) (get objB key)) (updates_map result)\<rparr>
      else result)"
  by (simp only: additions_updates_loop.simps(2) simp_thms if_True if_False)

lemma item_cases [case_names primitive object mismatch]:
  obtains
    "non_object_item itemA \<and> non_object_item itemB"
  | "\<not> (non_object_item itemA \<and> non_object_item itemB)"
    "object_item itemA \<and> object_item itemB \<and> depth_left ctx"
  | "\<not> (non_object_item itemA \<and> non_object_item itemB)"
    "\<not> (object_item itemA \<and> object_item itemB \<and> depth_left ctx)"
  by blast

lemma item_primitive:
  "non_object_item itemA \<and> non_object_item (first restB) \<Longrightarrow>
   elements_loop H (itemA # restA) restB ctx i =
   (if \<not> comparePrimitives H itemA (first restB) (enableTypeCoercion (options ctx))
    then Inr False
    else elements_loop H restA (tl restB) ctx (i + 1))"
  by (simp only: elements_loop.simps(2) simp_thms if_True if_False)

lemma item_object:
  "\<not> (non_object_item itemA \<and> non_object_item (first restB)) \<Longrightarrow>
   object_item itemA \<and> object_item (first restB) \<and> depth_left ctx \<Longrightarrow>
   elements_loop H (itemA # restA) restB ctx i =
   (case internalDiff H itemA (first restB)
           (ctx\<lparr>depth := depth ctx + 1, path := path ctx @ [index_toString i]\<rparr>) of
      Inl e \<Rightarrow> Inl e
    | Inr diffResult \<Rightarrow>
        (case any_difference diffResult of
           Inl e \<Rightarrow> Inl e
         | Inr differs \<Rightarrow>
             if differs then Inr False
             else elements_loop H restA (tl restB) ctx (i + 1)))"
  by (simp only: elements_loop.simps(2) simp_thms if_True if_False)

lemma item_mismatch:
  "\<not> (non_object_item itemA \<and> non_object_item (first restB)) \<Longrightarrow>
   \<not> (object_item itemA \<and> object_item (first restB) \<and> depth_left ctx) \<Longrightarrow>
   elements_loop H (itemA # restA) restB ctx i = Inr False"
  by (simp only: elements_loop.simps(2) simp_thms if_True if_False)

lemma diff_cases [case_names both_null left_null right_null types arrays objects primitives]:
  obtains
    "nullish a \<and> nullish b"
  | "\<not> (nullish a \<and> nullish b)" "nullish a"
  | "\<not> (nullish a \<and> nullish b)" "\<not> nullish a" "nullish b"
  | "\<not> (nullish a \<and> nullish b)" "\<not> nullish a" "\<not> nullish b" "typeof a \<noteq> typeof b"
  | "\<not> (nullish a \<and> nullish b)" "\<not> nullish a" "\<not> nullish b" "\<not> typeof a \<noteq> typeof b"
    "isArray a \<and> isArray b"
  | "\<not> (nullish a \<and> nullish b)" "\<not> nullish a" "\<not> nullish b" "\<not> typeof a \<noteq> typeof b"
    "\<not> (isArray a \<and> isArray b)" "isPlainObject a \<and> isPlainObject b"
  | "\<not> (nullish a \<and> nullish b)" "\<not> nullish a" "\<not> nullish b" "\<not> typeof a \<noteq> typeof b"
    "\<not> (isArray a \<and> isArray b)" "\<not> (isPlainObject a \<and> isPlainObject b)"
  by blast

lemma diff_both_null:
  "nullish a \<and> nullish b \<Longrightarrow> internalDiff H a b ctx = Inr empty_result"
  by (simp only: internalDiff.simps [of H a b ctx] simp_thms if_True if_False)

lemma diff_left_null:
  "\<not> (nullish a \<and> nullish b) \<Longrightarrow> nullish a \<Longrightarrow>
   internalDiff H a b ctx = Inr (empty_result\<lparr>additions := Whole b\<rparr>)"
  by (simp only: internalDiff.simps [of H a b ctx] simp_thms if_True if_False)

lemma diff_right_null:
  "\<not> (nullish a \<and> nullish b) \<Longrightarrow> \<not> nullish a \<Longrightarrow> nullish b \<Longrightarrow>
   internalDiff H a b ctx = Inr (empty_result\<lparr>deletions := Whole a\<rparr>)"
  by (simp only: internalDiff.simps [of H a b ctx] simp_thms if_True if_False)

lemma diff_types:
  "\<not> nullish a \<Longrightarrow> \<not> nullish b \<Longrightarrow> typeof a \<noteq> typeof b \<Longrightarrow>
   internalDiff H a b ctx = Inr (updated a b)"
  by (simp only: internalDiff.simps [of H a b ctx] simp_thms if_True if_False if_cancel)

lemma diff_arrays:
  "\<not> nullish a \<Longrightarrow> \<not> nullish b \<Longrightarrow> \<not> typeof a \<noteq> typeof b \<Longrightarrow>
   isArray a \<and> isArray b \<Longrightarrow>
   internalDiff H a b ctx =
   (case compareArrays H (elements a) (elements b) ctx of
      Inl e \<Rightarrow> Inl e
    | Inr equal \<Rightarrow> if \<not> equal then Inr (updated a b) else Inr empty_result)"
  by (simp only: internalDiff.simps [of H a b ctx] simp_thms if_True if_False)

lemma diff_objects:
  "\<not> nullish a \<Longrightarrow> \<not> nullish b \<Longrightarrow> \<not> typeof a \<noteq> typeof b \<Longrightarrow>
   \<not> (isArray a \<and> isArray b) \<Longrightarrow> isPlainObject a \<and> isPlainObject b \<Longrightarrow>
   internalDiff H a b ctx = compareObjects H (properties a) (properties b) ctx"
  by (simp only: internalDiff.simps [of H a b ctx] simp_thms if_True if_False)

lemma diff_primitives:
  "\<not> nullish a \<Longrightarrow> \<not> nullish b \<Longrightarrow> \<not> typeof a \<noteq> typeof b \<Longrightarrow>
   \<not> (isArray a \<and> isArray b) \<Longrightarrow> \<not> (isPlainObject a \<and> isPlainObject b) \<Longrightarrow>
   internalDiff H a b ctx =
   (if \<not> comparePrimitives H a b (enableTypeCoercion (options ctx))
    then Inr (updated a b) else Inr empty_result)"
  by (simp only: internalDiff.simps [of H a b ctx] simp_thms if_True if_False)

lemma arrays_cases [case_names lengths empty sorted in_order]:
  obtains
    "length arrayA \<noteq> length arrayB"
  | "\<not> length arrayA \<noteq> length arrayB" "length arrayA = 0"
  | "\<not> length arrayA \<noteq> length arrayB" "length arrayA \<noteq> 0"
    "\<not> arrayOrderMatters (options ctx) \<and>
     list_all primitive_item arrayA \<and> list_all primitive_item arrayB"
  | "\<not> length arrayA \<noteq> length arrayB" "length arrayA \<noteq> 0"
    "\<not> (\<not> arrayOrderMatters (options ctx) \<and>
        list_all primitive_item arrayA \<and> list_all primitive_item arrayB)"
  by blast

lemma arrays_lengths:
  "length arrayA \<noteq> length arrayB \<Longrightarrow> compareArrays H arrayA arrayB ctx = Inr False"
  by (simp only: compareArrays.simps [of H arrayA arrayB ctx] simp_thms if_True if_False)

lemma arrays_empty:
  "\<not> length arrayA \<noteq> length arrayB \<Longrightarrow> length arrayA = 0 \<Longrightarrow>
   compareArrays H arrayA arrayB ctx = Inr True"
  by (simp only: compareArrays.simps [of H arrayA arrayB ctx] simp_thms if_True if_False)

lemma arrays_sorted:
  "\<not> length arrayA \<noteq> length arrayB \<Longrightarrow> length arrayA \<noteq> 0 \<Longrightarrow>
   \<not> arrayOrderMatters (options ctx) \<and>
     list_all primitive_item arrayA \<and> list_all primitive_item arrayB \<Longrightarrow>
   compareArrays H arrayA arrayB ctx =
   Inr (compareSorted H (enableTypeCoercion (options ctx))
          (js_sort H arrayA) (js_sort H arrayB))"
  by (simp only: compareArrays.simps [of H arrayA arrayB ctx] simp_thms if_True if_False)

lemma arrays_in_order:
  "\<not> length arrayA \<noteq> length arrayB \<Longrightarrow> length arrayA \<noteq> 0 \<Longrightarrow>
   \<not> (\<not> arrayOrderMatters (options ctx) \<and>
      list_all primitive_item arrayA \<and> list_all primitive_item arrayB) \<Longrightarrow>
   compareArrays H arrayA arrayB ctx = elements_loop H arrayA arrayB ctx 0"
  by (simp only: compareArrays.simps [of H arrayA arrayB ctx] simp_thms if_True if_False)

section \<open>No TypeError\<close>

text \<open>
  On a stack that is deep enough the engine returns a result on every input: no
  \<open>Object.keys\<close> of the engine is applied to \<open>null\<close> or \<open>undefined\<close>.
\<close>

lemma value_keys_defined: "\<not> nullish v \<Longrightarrow> \<exists>ks. value_keys v = Inr ks"
  by (cases v) simp_all

lemma has_keys_defined: "map_like d \<Longrightarrow> \<exists>b. has_keys d = Inr b"
  using value_keys_defined by (cases d) (fastforce simp: has_keys_def)+

lemma attach_nested_defined:
  "keys_defined n \<Longrightarrow> \<exists>R'. attach_nested key n R = Inr R'"
  using has_keys_defined [of "additions n"] has_keys_defined [of "deletions n"]
    has_keys_defined [of "updates n"]
  by (auto simp: attach_nested_def keys_defined_def Let_def)

lemma any_difference_defined:
  "keys_defined n \<Longrightarrow> \<exists>b. any_difference n = Inr b"
  using has_keys_defined [of "additions n"] has_keys_defined [of "deletions n"]
    has_keys_defined [of "updates n"]
  by (auto simp: any_difference_def keys_defined_def)

lemma nullish_isPlainObject: "isPlainObject v \<Longrightarrow> \<not> nullish v"
  by (cases v) simp_all

lemma nullish_object_item: "object_item v \<Longrightarrow> \<not> nullish v"
  by (cases v) (simp_all add: object_item_def)

lemma engine_total:
  shows "\<exists>r. internalDiff H a b c = Inr r \<and> (\<not> nullish a \<and> \<not> nullish b \<longrightarrow> keys_defined r)"
    and "\<exists>r. compareObjects H oa ob c2 = Inr r \<and> keys_defined r"
    and "\<exists>R'. additions_updates_loop H oa' ob' c3 ks R = Inr R'"
    and "\<exists>e. compareArrays H xs ys c4 = Inr e"
    and "\<exists>e. elements_loop H xs' ys' c5 i = Inr e"
proof (induction H a b c and H oa ob c2 and H oa' ob' c3 ks R and H xs ys c4 and H xs' ys' c5 i
    rule: internalDiff_compareObjects_additions_updates_loop_compareArrays_elements_loop.induct)
  case (1 H objA objB ctx)
  show ?case
  proof (cases rule: diff_cases [where a = objA and b = objB])
    case both_null
    then show ?thesis by (simp add: diff_both_null)
  next
    case left_null
    then show ?thesis by (simp add: diff_left_null)
  next
    case right_null
    then show ?thesis by (simp add: diff_right_null)
  next
    case types
    then show ?thesis
      by (simp add: diff_types keys_defined_def updated_def empty_result_def)
  next
    case arrays
    from 1(1) [OF arrays] obtain e where
      "compareArrays H (elements objA) (elements objB) ctx = Inr e" by blast
    with arrays show ?thesis
      by (simp add: diff_arrays keys_defined_def updated_def empty_result_def)
  next
    case objects
    from 1(2) [OF objects] objects show ?thesis
      by (simp add: diff_objects)
  next
    case primitives
    then show ?thesis
      by (simp add: diff_primitives keys_defined_def updated_def empty_result_def)
  qed
next
  case (2 H objA objB ctx)
  then obtain R' where
    "additions_updates_loop H objA objB ctx (Object_keys objB)
       (deletions_loop objA objB ctx (Object_keys objA)
          \<lparr>additions_map = [], deletions_map = [], updates_map = []\<rparr>) = Inr R'"
    by blast
  then show ?case
    by (simp add: compareObjects.simps [of H objA objB ctx] keys_defined_def)
next
  case (3 H objA objB ctx result)
  show ?case by simp
next
  case (4 H objA objB ctx key keysB result)
  show ?case
  proof (cases rule: key_cases [where ctx = ctx and key = key and objA = objA and objB = objB])
    case ignored
    with 4(1) show ?thesis by (simp add: step_ignored)
  next
    case addition
    with 4(2) show ?thesis by (simp add: step_addition)
  next
    case nested
    from 4(3) [OF nested(1) _ nested(3)] nested(2,3) obtain n where
      n: "internalDiff H (get objA key) (get objB key)
            (ctx\<lparr>depth := depth ctx + 1, path := path ctx @ [key]\<rparr>) = Inr n"
      and kd: "keys_defined n"
      using nullish_isPlainObject by blast
    from attach_nested_defined [OF kd] obtain R' where
      R': "attach_nested key n result = Inr R'" by blast
    from 4(4) [OF nested(1) _ nested(3) n R'] nested(2) obtain R'' where
      "additions_updates_loop H objA objB ctx keysB R' = Inr R''" by blast
    with nested n R' show ?thesis
      by (simp add: step_nested)
  next
    case array
    from 4(5) [OF array(1) _ array(3) array(4)] array(2) obtain e where
      e: "compareArrays H (elements (get objA key)) (elements (get objB key))
            (ctx\<lparr>path := path ctx @ [key]\<rparr>) = Inr e"
      by blast
    from 4(6) [OF array(1) _ array(3) array(4) e] array(2) obtain R'' where
      "additions_updates_loop H objA objB ctx keysB
         (if \<not> e
          then result\<lparr>updates_map :=
                 assign_key key (Change (get objA key) (get objB key)) (updates_map result)\<rparr>
          else result) = Inr R''" by blast
    with array e show ?thesis
      by (simp add: step_array)
  next
    case primitive
    from 4(7) [OF primitive(1) _ primitive(3) primitive(4)] primitive(2) obtain R'' where
      "additions_updates_loop H objA objB ctx keysB
         (if \<not> comparePrimitives H (get objA key) (get objB key)
                (enableTypeCoercion (options ctx))
          then result\<lparr>updates_map :=
                 assign_key key (Change (get objA key) (get objB key)) (updates_map result)\<rparr>
          else result) = Inr R''" by blast
    with primitive show ?thesis by (simp add: step_primitive)
  qed
next
  case (5 H arrayA arrayB ctx)
  show ?case
  proof (cases rule: arrays_cases [where arrayA = arrayA and arrayB = arrayB and ctx = ctx])
    case lengths
    then show ?thesis by (auto simp: arrays_lengths)
  next
    case empty
    then show ?thesis by (auto simp: arrays_empty)
  next
    case sorted
    then show ?thesis by (auto simp: arrays_sorted)
  next
    case in_order
    from 5 [OF in_order] in_order show ?thesis by (auto simp: arrays_in_order)
  qed
next
  case (6 H restB ctx i)
  show ?case by auto
next
  case (7 H itemA restA restB ctx i)
  show ?case
  proof (cases rule: item_cases [where itemA = itemA and itemB = "first restB" and ctx = ctx])
    case primitive
    show ?thesis
    proof (cases "comparePrimitives H itemA (first restB) (enableTypeCoercion (options ctx))")
      case True
      with 7(1) [OF primitive] primitive show ?thesis by (auto simp: item_primitive)
    next
      case False
      with primitive show ?thesis by (auto simp: item_primitive)
    qed
  next
    case object
    from 7(2) [OF object] object(2) obtain n where
      n: "internalDiff H itemA (first restB)
            (ctx\<lparr>depth := depth ctx + 1, path := path ctx @ [index_toString i]\<rparr>) = Inr n"
      and kd: "keys_defined n"
      using nullish_object_item by blast
    from any_difference_defined [OF kd] obtain d where d: "any_difference n = Inr d"
      by blast
    show ?thesis
    proof (cases d)
      case True
      with object n d show ?thesis by (auto simp: item_object)
    next
      case False
      from 7(3) [OF object n d False] obtain e where
        "elements_loop H restA (tl restB) ctx (i + 1) = Inr e" by blast
      with object n d False show ?thesis by (auto simp: item_object)
    qed
  next
    case mismatch
    then show ?thesis by (auto simp: item_mismatch)
  qed
qed

section \<open>NaN\<close>

text \<open>
  C10. \<open>comparePrimitives(NaN, NaN, c)\<close> is false for both values of \<open>c\<close>, so
  \<open>diff({x: NaN}, {x: NaN})\<close> reports the update \<open>x: {from: NaN, to: NaN}\<close>, whatever the
  coercion option.
\<close>

theorem NaN_self_inequality:
  "comparePrimitives H (JNum NaN) (JNum NaN) True = False \<and>
   comparePrimitives H (JNum NaN) (JNum NaN) False = False \<and>
   diff H (JObject r [(''x'', JNum NaN)]) (JObject r' [(''x'', JNum NaN)])
     (no_options\<lparr>opt_enableTypeCoercion := c\<rparr>) =
   Inr \<lparr>additions = Nested [], deletions = Nested [],
        updates = Nested [(''x'', Change (JNum NaN) (JNum NaN))]\<rparr>"
  by (simp add: options_defs object_defs internalDiff_objects compareObjects.simps
      additions_updates_loop.simps(2) shouldIgnoreProperty_def depth_left_def
      comparePrimitives_NaN assign_key_def)

section \<open>Coercion between numbers and strings\<close>

text \<open>
  C5. With coercion enabled a number \<open>n\<close> and a string \<open>s\<close> are equal exactly when
  \<open>Number(s)\<close> is a number (not \<open>NaN\<close>) and that number is \<open>n\<close>, in either order of the
  arguments. In particular, on a host where \<open>Number("30")\<close> is 30,
  \<open>diff({age: 30}, {age: "30"})\<close> with the default options has three empty maps.
\<close>

theorem number_string_coercion:
  "comparePrimitives H (JNum n) (JStr s) True = (Number H s \<noteq> NaN \<and> Number H s = n) \<and>
   comparePrimitives H (JStr s) (JNum n) True = (Number H s \<noteq> NaN \<and> Number H s = n) \<and>
   (Number H ''30'' = Fin 30 \<longrightarrow>
    diff H (JObject r [(''age'', JNum (Fin 30))]) (JObject r' [(''age'', JStr ''30'')]) no_options =
    Inr empty_result)"
proof (intro conjI impI)
  show "comparePrimitives H (JNum n) (JStr s) True = (Number H s \<noteq> NaN \<and> Number H s = n)"
    by (auto simp: comparePrimitives_def coerceValues_def num_eq_def Let_def)
  show "comparePrimitives H (JStr s) (JNum n) True = (Number H s \<noteq> NaN \<and> Number H s = n)"
    by (auto simp: comparePrimitives_def coerceValues_def num_eq_def Let_def)
  assume "Number H ''30'' = Fin 30"
  then have "comparePrimitives H (JNum (Fin 30)) (JStr ''30'') True"
    by (simp add: comparePrimitives_def coerceValues_def num_eq_def)
  then show "diff H (JObject r [(''age'', JNum (Fin 30))]) (JObject r' [(''age'', JStr ''30'')])
      no_options = Inr empty_result"
    by (simp add: options_defs object_defs internalDiff_objects compareObjects.simps
        additions_updates_loop.simps(2) shouldIgnoreProperty_def depth_left_def empty_result_def)
qed

theorem number_string_coercion_witness:
  "Number example_host ''30'' = Fin 30 \<and>
   comparePrimitives example_host (JNum (Fin 30)) (JStr ''30'') True \<and>
   \<not> comparePrimitives example_host (JNum (Fin 31)) (JStr ''30'') True \<and>
   diff example_host (JObject 1 [(''age'', JNum (Fin 30))]) (JObject 2 [(''age'', JStr ''30'')])
     no_options = Inr empty_result"
  using number_string_coercion [of example_host "Fin 30" "''30''" 1 2]
    number_string_coercion [of example_host "Fin 31" "''30''" 1 2]
  by (simp add: example_host_Number_30)

section \<open>No coercion at the top level\<close>

text \<open>
  C4. When the two arguments of \<open>diff\<close> are not \<open>null\<close> or \<open>undefined\<close> and their
  \<open>typeof\<close> differ, the result is the single update \<open>{from: a, to: b}\<close>, with empty
  additions and deletions, for every options object: coercion is not tried. The same two
  values as the values of a key \<open>k\<close> of two objects (not ignored, and not \<open>__proto__\<close>) are
  equal exactly when coercion is enabled and \<open>coerceValues\<close> finds them equal; otherwise
  they are the update under \<open>k\<close>. So a number \<open>n\<close> and a string \<open>s\<close> are an update at the
  top level whatever \<open>Number(s)\<close> is, and one level down, with coercion enabled, they are
  an update only when \<open>Number(s)\<close> is \<open>NaN\<close> or differs from \<open>n\<close>.
\<close>

theorem top_level_without_coercion:
  assumes "\<not> nullish a" and "\<not> nullish b" and "typeof a \<noteq> typeof b"
    and "\<not> shouldIgnoreProperty k (ignoreProperties (mergedOptions opts))"
    and "k \<noteq> ''__proto__''"
  shows "diff H a b opts =
           Inr \<lparr>additions = Nested [], deletions = Nested [], updates = Change a b\<rparr> \<and>
         diff H (JObject r [(k, a)]) (JObject r' [(k, b)]) opts =
           Inr (if enableTypeCoercion (mergedOptions opts) \<and> coerceValues H a b
                then empty_result
                else \<lparr>additions = Nested [], deletions = Nested [],
                      updates = Nested [(k, Change a b)]\<rparr>) \<and>
         diff H (JNum n) (JStr s) opts =
           Inr \<lparr>additions = Nested [], deletions = Nested [],
                updates = Change (JNum n) (JStr s)\<rparr> \<and>
         diff H (JObject r [(k, JNum n)]) (JObject r' [(k, JStr s)]) opts =
           Inr (if enableTypeCoercion (mergedOptions opts) \<and> Number H s \<noteq> NaN \<and> Number H s = n
                then empty_result
                else \<lparr>additions = Nested [], deletions = Nested [],
                      updates = Nested [(k, Change (JNum n) (JStr s))]\<rparr>)"
proof -
  have top: "diff H x y opts =
      Inr \<lparr>additions = Nested [], deletions = Nested [], updates = Change x y\<rparr>"
    if "\<not> nullish x" and "\<not> nullish y" and "typeof x \<noteq> typeof y" for x y
    using that by (simp add: diff_def diff_types updated_def empty_result_def)
  have below: "diff H (JObject r [(k, x)]) (JObject r' [(k, y)]) opts =
      Inr (if enableTypeCoercion (mergedOptions opts) \<and> coerceValues H x y
           then empty_result
           else \<lparr>additions = Nested [], deletions = Nested [],
                 updates = Nested [(k, Change x y)]\<rparr>)"
    if differ: "typeof x \<noteq> typeof y" for x y
  proof -
    have "\<not> (isPlainObject x \<and> isPlainObject y)" and "\<not> (isArray x \<and> isArray y)"
      using differ typeof_isPlainObject typeof_isArray by auto
    moreover have "\<not> strict_equal x y"
      using differ by (cases x; cases y) simp_all
    ultimately show ?thesis
      using assms(4,5)
      by (auto simp: diff_def internalDiff_objects compareObjects.simps object_defs
          additions_updates_loop.simps(2) empty_result_def comparePrimitives_def assign_key_def)
  qed
  have number: "coerceValues H (JNum n) (JStr s) = (Number H s \<noteq> NaN \<and> Number H s = n)"
    by (auto simp: coerceValues_def num_eq_def Let_def)
  from top [OF assms(1,2,3)] below [OF assms(3)] top [of "JNum n" "JStr s"]
    below [of "JNum n" "JStr s"] number
  show ?thesis by simp
qed

theorem top_level_without_coercion_witness:
  "diff example_host (JNum (Fin 30)) (JStr ''30'') no_options =
     Inr \<lparr>additions = Nested [], deletions = Nested [],
          updates = Change (JNum (Fin 30)) (JStr ''30'')\<rparr> \<and>
   diff example_host (JObject 1 [(''age'', JNum (Fin 30))]) (JObject 2 [(''age'', JStr ''30'')])
     no_options = Inr empty_result \<and>
   diff example_host (JObject 1 [(''age'', JNum (Fin 30))]) (JObject 2 [(''age'', JStr ''30'')])
     (no_options\<lparr>opt_enableTypeCoercion := Some False\<rparr>) =
     Inr \<lparr>additions = Nested [], deletions = Nested [],
          updates = Nested [(''age'', Change (JNum (Fin 30)) (JStr ''30''))]\<rparr>"
  using top_level_without_coercion [of "JNum (Fin 30)" "JStr ''30''" "''age''" no_options
      example_host 1 2 "Fin 30" "''30''"]
    top_level_without_coercion [of "JNum (Fin 30)" "JStr ''30''" "''age''"
      "no_options\<lparr>opt_enableTypeCoercion := Some False\<rparr>" example_host 1 2 "Fin 30" "''30''"]
  by (simp add: shouldIgnoreProperty_def mergedOptions_def no_options_def DEFAULT_OPTIONS_def
      coerceValues_def num_eq_def example_host_Number_30)

section \<open>The entries of the three maps\<close>

lemma deletions_loop_other [simp]:
  "additions_map (deletions_loop objA objB ctx ks R) = additions_map R"
  "updates_map (deletions_loop objA objB ctx ks R) = updates_map R"
  by (induction ks arbitrary: R) simp_all

lemma deletions_loop_justified:
  "justified H objA objB ctx R \<Longrightarrow> set ks \<subseteq> set (Object_keys objA) \<Longrightarrow>
   justified H objA objB ctx (deletions_loop objA objB ctx ks R)"
proof (induction ks arbitrary: R)
  case Nil
  then show ?case by simp
next
  case (Cons key ks)
  have "justified H objA objB ctx
      (R\<lparr>deletions_map := assign_key key (Whole (get objA key)) (deletions_map R)\<rparr>)"
    if "visited ctx key" and "\<not> has_key objB key"
    using that Cons.prems
    by (auto simp: justified_def map_of_assign_key deletion_entry_def has_key_def)
  with Cons show ?case
    by (simp add: visited_def)
qed

lemma attach_nested_justified:
  assumes "justified H objA objB ctx R"
    and "visited ctx key"
    and "recursed H objA objB ctx key n"
    and "attach_nested key n R = Inr R'"
  shows "justified H objA objB ctx R'"
proof -
  have a: "addition_entry H objA objB ctx key (additions n)"
    and d: "deletion_entry H objA objB ctx key (deletions n)"
    and u: "update_entry H objA objB ctx key (updates n)"
    using assms(2,3) by (auto simp: addition_entry_def deletion_entry_def update_entry_def)
  from assms(4) obtain ha hd hu where
    "R' = (let r1 = (if ha then R\<lparr>additions_map :=
                       assign_key key (additions n) (additions_map R)\<rparr> else R);
              r2 = (if hd then r1\<lparr>deletions_map :=
                       assign_key key (deletions n) (deletions_map r1)\<rparr> else r1)
          in (if hu then r2\<lparr>updates_map :=
                       assign_key key (updates n) (updates_map r2)\<rparr> else r2))"
    by (auto simp: attach_nested_def Let_def split: sum.splits)
  with assms(1) a d u show ?thesis
    by (auto simp: justified_def Let_def map_of_assign_key split: if_splits)
qed

lemma loop_justified:
  "additions_updates_loop H objA objB ctx ks R = Inr R' \<Longrightarrow>
   justified H objA objB ctx R \<Longrightarrow> set ks \<subseteq> set (Object_keys objB) \<Longrightarrow>
   justified H objA objB ctx R'"
proof (induction ks arbitrary: R)
  case Nil
  then show ?case by simp
next
  case (Cons key ks)
  from Cons.prems(3) have inB: "has_key objB key" and sub: "set ks \<subseteq> set (Object_keys objB)"
    by (simp_all add: has_key_def)
  show ?case
  proof (cases rule: key_cases [where ctx = ctx and key = key and objA = objA and objB = objB])
    case ignored
    with Cons show ?thesis by (simp add: step_ignored)
  next
    case addition
    have "justified H objA objB ctx
        (R\<lparr>additions_map := assign_key key (Whole (get objB key)) (additions_map R)\<rparr>)"
      using Cons.prems(2) addition inB
      by (auto simp: justified_def map_of_assign_key addition_entry_def visited_def)
    with Cons.IH [OF _ this sub] Cons.prems(1) addition show ?thesis
      by (simp add: step_addition)
  next
    case nested
    from Cons.prems(1) nested obtain n R1 where
      n: "internalDiff H (get objA key) (get objB key)
            (ctx\<lparr>depth := depth ctx + 1, path := path ctx @ [key]\<rparr>) = Inr n"
      and R1: "attach_nested key n R = Inr R1"
      and rest: "additions_updates_loop H objA objB ctx ks R1 = Inr R'"
      by (auto simp: step_nested split: sum.splits)
    have "recursed H objA objB ctx key n"
      using nested inB n by (simp add: recursed_def)
    from attach_nested_justified [OF Cons.prems(2) _ this R1] nested(1)
    have "justified H objA objB ctx R1" by (simp add: visited_def)
    from Cons.IH [OF rest this sub] show ?thesis .
  next
    case array
    from Cons.prems(1) array obtain e where
      rest: "additions_updates_loop H objA objB ctx ks
          (if \<not> e
           then R\<lparr>updates_map :=
                  assign_key key (Change (get objA key) (get objB key)) (updates_map R)\<rparr>
           else R) = Inr R'"
      by (auto simp: step_array split: sum.splits)
    have "justified H objA objB ctx
        (R\<lparr>updates_map := assign_key key (Change (get objA key) (get objB key)) (updates_map R)\<rparr>)"
      using Cons.prems(2) array inB
      by (auto simp: justified_def map_of_assign_key update_entry_def visited_def)
    with Cons.prems(2) have "justified H objA objB ctx
        (if \<not> e
         then R\<lparr>updates_map :=
                assign_key key (Change (get objA key) (get objB key)) (updates_map R)\<rparr>
         else R)" by simp
    from Cons.IH [OF rest this sub] show ?thesis .
  next
    case primitive
    from Cons.prems(1) primitive have
      rest: "additions_updates_loop H objA objB ctx ks
          (if \<not> comparePrimitives H (get objA key) (get objB key)
                 (enableTypeCoercion (options ctx))
           then R\<lparr>updates_map :=
                  assign_key key (Change (get objA key) (get objB key)) (updates_map R)\<rparr>
           else R) = Inr R'"
      by (simp add: step_primitive)
    have "justified H objA objB ctx
        (R\<lparr>updates_map := assign_key key (Change (get objA key) (get objB key)) (updates_map R)\<rparr>)"
      using Cons.prems(2) primitive inB
      by (auto simp: justified_def map_of_assign_key update_entry_def visited_def)
    with Cons.prems(2) have "justified H objA objB ctx
        (if \<not> comparePrimitives H (get objA key) (get objB key)
               (enableTypeCoercion (options ctx))
         then R\<lparr>updates_map :=
                assign_key key (Change (get objA key) (get objB key)) (updates_map R)\<rparr>
         else R)" by simp
    from Cons.IH [OF rest this sub] show ?thesis .
  qed
qed

lemma compareObjects_justified:
  assumes "compareObjects H objA objB ctx = Inr result"
  shows "\<exists>R. result = \<lparr>additions = Nested (additions_map R), deletions = Nested (deletions_map R),
                        updates = Nested (updates_map R)\<rparr> \<and> justified H objA objB ctx R"
proof -
  let ?R0 = "deletions_loop objA objB ctx (Object_keys objA)
      \<lparr>additions_map = [], deletions_map = [], updates_map = []\<rparr>"
  have "justified H objA objB ctx \<lparr>additions_map = [], deletions_map = [], updates_map = []\<rparr>"
    by (simp add: justified_def)
  then have R0: "justified H objA objB ctx ?R0"
    by (rule deletions_loop_justified) simp
  from assms obtain R where
    R: "additions_updates_loop H objA objB ctx (Object_keys objB) ?R0 = Inr R"
    and res: "result = \<lparr>additions = Nested (additions_map R), deletions = Nested (deletions_map R),
                        updates = Nested (updates_map R)\<rparr>"
    by (auto simp: compareObjects.simps [of H objA objB ctx] split: sum.splits)
  from loop_justified [OF R R0] res show ?thesis by auto
qed

lemma objects_result:
  assumes "isPlainObject a" and "isPlainObject b" and "internalDiff H a b ctx = Inr n"
  shows "\<exists>R. n = \<lparr>additions = Nested (additions_map R), deletions = Nested (deletions_map R),
                   updates = Nested (updates_map R)\<rparr> \<and>
             justified H (properties a) (properties b) ctx R"
proof -
  from assms(1,2) obtain r fs r' gs where "a = JObject r fs" and "b = JObject r' gs"
    by (cases a; cases b) simp_all
  with assms(3) show ?thesis
    using compareObjects_justified [of H fs gs ctx n] by (simp add: internalDiff_objects)
qed

lemma recursed_nested:
  assumes "recursed H objA objB ctx key n"
  shows "\<not> scalar (Some (additions n))" and "\<not> scalar (Some (deletions n))"
    and "\<not> scalar (Some (updates n))"
proof -
  from assms have "isPlainObject (get objA key)" and "isPlainObject (get objB key)"
    and "internalDiff H (get objA key) (get objB key)
           (ctx\<lparr>depth := depth ctx + 1, path := path ctx @ [key]\<rparr>) = Inr n"
    by (simp_all add: recursed_def)
  from objects_result [OF this] obtain R :: ObjectMaps where
    "n = \<lparr>additions = Nested (additions_map R), deletions = Nested (deletions_map R),
          updates = Nested (updates_map R)\<rparr>"
    by blast
  then show "\<not> scalar (Some (additions n))" and "\<not> scalar (Some (deletions n))"
    and "\<not> scalar (Some (updates n))"
    by simp_all
qed

lemma recursed_keys:
  "recursed H objA objB ctx key n \<Longrightarrow>
   has_key objA key \<and> has_key objB key \<and> isPlainObject (get objA key) \<and>
   isPlainObject (get objB key) \<and> depth_left ctx"
  by (simp add: recursed_def)

lemma recursed_unique:
  "recursed H objA objB ctx key n \<Longrightarrow> recursed H objA objB ctx key n' \<Longrightarrow> n' = n"
  by (simp add: recursed_def)

text \<open>
  C8. In the result of comparing two plain objects, at any nesting level (any context), a
  key with a scalar entry (a value stored whole, or a pair \<open>{from, to}\<close>) in one of the
  three maps has no entry in the other two. A key with an entry in more than one map is a
  key of both objects whose two values are plain objects, and each of its entries is the
  corresponding map of the result of the recursive call on these two values.
\<close>

theorem key_partition:
  assumes "internalDiff H (JObject ra objA) (JObject rb objB) ctx = Inr result"
  shows "\<exists>am dm um.
      result = \<lparr>additions = Nested am, deletions = Nested dm, updates = Nested um\<rparr> \<and>
      (scalar (map_of am k) \<longrightarrow> map_of dm k = None \<and> map_of um k = None) \<and>
      (scalar (map_of dm k) \<longrightarrow> map_of am k = None \<and> map_of um k = None) \<and>
      (scalar (map_of um k) \<longrightarrow> map_of am k = None \<and> map_of dm k = None) \<and>
      ((map_of am k \<noteq> None \<and> map_of dm k \<noteq> None) \<or>
       (map_of am k \<noteq> None \<and> map_of um k \<noteq> None) \<or>
       (map_of dm k \<noteq> None \<and> map_of um k \<noteq> None) \<longrightarrow>
       has_key objA k \<and> has_key objB k \<and>
       isPlainObject (get objA k) \<and> isPlainObject (get objB k) \<and>
       (\<exists>n. internalDiff H (get objA k) (get objB k)
                (ctx\<lparr>depth := depth ctx + 1, path := path ctx @ [k]\<rparr>) = Inr n \<and>
            map_of am k \<in> {None, Some (additions n)} \<and>
            map_of dm k \<in> {None, Some (deletions n)} \<and>
            map_of um k \<in> {None, Some (updates n)}))"
proof -
  from assms obtain R where
    result: "result = \<lparr>additions = Nested (additions_map R),
                       deletions = Nested (deletions_map R),
                       updates = Nested (updates_map R)\<rparr>"
    and just: "justified H objA objB ctx R"
    using compareObjects_justified [of H objA objB ctx result]
    by (auto simp: internalDiff_objects)
  let ?am = "additions_map R" and ?dm = "deletions_map R" and ?um = "updates_map R"
  have a: "addition_entry H objA objB ctx k e" if "map_of ?am k = Some e" for e
    using just that by (simp add: justified_def)
  have d: "deletion_entry H objA objB ctx k e" if "map_of ?dm k = Some e" for e
    using just that by (simp add: justified_def)
  have u: "update_entry H objA objB ctx k e" if "map_of ?um k = Some e" for e
    using just that by (simp add: justified_def)
  have sa: "\<not> has_key objA k" if "scalar (map_of ?am k)"
  proof -
    from that obtain e where e: "map_of ?am k = Some e" by (cases "map_of ?am k") simp_all
    from a [OF e] that e recursed_nested(1) show ?thesis
      by (auto simp: addition_entry_def)
  qed
  have sd: "\<not> has_key objB k" if "scalar (map_of ?dm k)"
  proof -
    from that obtain e where e: "map_of ?dm k = Some e" by (cases "map_of ?dm k") simp_all
    from d [OF e] that e recursed_nested(2) show ?thesis
      by (auto simp: deletion_entry_def)
  qed
  have su: "has_key objA k \<and> has_key objB k \<and>
      \<not> (depth_left ctx \<and> isPlainObject (get objA k) \<and> isPlainObject (get objB k))"
    if "scalar (map_of ?um k)"
  proof -
    from that obtain e where e: "map_of ?um k = Some e" by (cases "map_of ?um k") simp_all
    from u [OF e] that e recursed_nested(3) show ?thesis
      by (auto simp: update_entry_def)
  qed
  have ka: "has_key objB k" if "map_of ?am k \<noteq> None"
    using that a by (auto simp: addition_entry_def recursed_def)
  have kd: "has_key objA k" if "map_of ?dm k \<noteq> None"
    using that d by (auto simp: deletion_entry_def recursed_def)
  have ku: "has_key objA k \<and> has_key objB k" if "map_of ?um k \<noteq> None"
    using that u by (auto simp: update_entry_def recursed_def)
  have ra: "\<exists>n. recursed H objA objB ctx k n \<and> map_of ?am k = Some (additions n)"
    if "map_of ?am k \<noteq> None" and "has_key objA k"
    using that a by (auto simp: addition_entry_def)
  have rd: "\<exists>n. recursed H objA objB ctx k n \<and> map_of ?dm k = Some (deletions n)"
    if "map_of ?dm k \<noteq> None" and "has_key objB k"
    using that d by (auto simp: deletion_entry_def)
  have ru: "\<exists>n. recursed H objA objB ctx k n \<and> map_of ?um k = Some (updates n)"
    if "map_of ?um k \<noteq> None"
      and "depth_left ctx \<and> isPlainObject (get objA k) \<and> isPlainObject (get objB k)"
    using that u by (auto simp: update_entry_def)
  have p1: "map_of ?dm k = None \<and> map_of ?um k = None" if "scalar (map_of ?am k)"
    using sa [OF that] kd ku by blast
  have p2: "map_of ?am k = None \<and> map_of ?um k = None" if "scalar (map_of ?dm k)"
    using sd [OF that] ka ku by blast
  have p3: "map_of ?am k = None \<and> map_of ?dm k = None" if "scalar (map_of ?um k)"
  proof -
    from su [OF that] have both: "has_key objA k" "has_key objB k"
      and norec: "\<not> (depth_left ctx \<and> isPlainObject (get objA k) \<and> isPlainObject (get objB k))"
      by simp_all
    have "map_of ?am k = None"
      using ra [OF _ both(1)] norec recursed_keys by blast
    moreover have "map_of ?dm k = None"
      using rd [OF _ both(2)] norec recursed_keys by blast
    ultimately show ?thesis ..
  qed
  have p4: "has_key objA k \<and> has_key objB k \<and>
       isPlainObject (get objA k) \<and> isPlainObject (get objB k) \<and>
       (\<exists>n. internalDiff H (get objA k) (get objB k)
                (ctx\<lparr>depth := depth ctx + 1, path := path ctx @ [k]\<rparr>) = Inr n \<and>
            map_of ?am k \<in> {None, Some (additions n)} \<and>
            map_of ?dm k \<in> {None, Some (deletions n)} \<and>
            map_of ?um k \<in> {None, Some (updates n)})"
    if two: "(map_of ?am k \<noteq> None \<and> map_of ?dm k \<noteq> None) \<or>
       (map_of ?am k \<noteq> None \<and> map_of ?um k \<noteq> None) \<or>
       (map_of ?dm k \<noteq> None \<and> map_of ?um k \<noteq> None)"
  proof -
    from two ka kd ku have both: "has_key objA k" "has_key objB k" by blast+
    have "\<exists>n. recursed H objA objB ctx k n"
    proof (cases "map_of ?am k \<noteq> None")
      case True
      from ra [OF True both(1)] show ?thesis by blast
    next
      case False
      with two have "map_of ?dm k \<noteq> None" by blast
      from rd [OF this both(2)] show ?thesis by blast
    qed
    then obtain n where n: "recursed H objA objB ctx k n" ..
    have ua: "map_of ?am k \<in> {None, Some (additions n)}"
    proof (cases "map_of ?am k")
      case None
      then show ?thesis by simp
    next
      case (Some e)
      with ra [OF _ both(1)] obtain n' where
        "recursed H objA objB ctx k n'" and "map_of ?am k = Some (additions n')" by auto
      with recursed_unique [OF n] show ?thesis by auto
    qed
    have ud: "map_of ?dm k \<in> {None, Some (deletions n)}"
    proof (cases "map_of ?dm k")
      case None
      then show ?thesis by simp
    next
      case (Some e)
      with rd [OF _ both(2)] obtain n' where
        "recursed H objA objB ctx k n'" and "map_of ?dm k = Some (deletions n')" by auto
      with recursed_unique [OF n] show ?thesis by auto
    qed
    have uu: "map_of ?um k \<in> {None, Some (updates n)}"
    proof (cases "map_of ?um k")
      case None
      then show ?thesis by simp
    next
      case (Some e)
      with ru recursed_keys [OF n] obtain n' where
        "recursed H objA objB ctx k n'" and "map_of ?um k = Some (updates n')" by auto
      with recursed_unique [OF n] show ?thesis by auto
    qed
    from n both ua ud uu show ?thesis
      by (auto simp: recursed_def)
  qed
  from result p1 p2 p3 p4 show ?thesis
    by blast
qed

section \<open>The depth limit\<close>

lemma attach_nested_updates_mono:
  assumes "attach_nested key n R = Inr R1" and "map_of (updates_map R) k \<noteq> None"
  shows "map_of (updates_map R1) k \<noteq> None"
proof -
  from assms(1) obtain hasA hasD hasU where
    "R1 = (let r1 = (if hasA then R\<lparr>additions_map :=
                       assign_key key (additions n) (additions_map R)\<rparr> else R);
              r2 = (if hasD then r1\<lparr>deletions_map :=
                       assign_key key (deletions n) (deletions_map r1)\<rparr> else r1)
          in (if hasU then r2\<lparr>updates_map :=
                       assign_key key (updates n) (updates_map r2)\<rparr> else r2))"
    by (auto simp: attach_nested_def Let_def split: sum.splits)
  with assms(2) show ?thesis
    by (auto simp: Let_def map_of_assign_key)
qed

lemma loop_updates_mono:
  "additions_updates_loop H objA objB ctx ks R = Inr R' \<Longrightarrow>
   map_of (updates_map R) k \<noteq> None \<Longrightarrow> map_of (updates_map R') k \<noteq> None"
proof (induction ks arbitrary: R)
  case Nil
  then show ?case by simp
next
  case (Cons key ks)
  show ?case
  proof (cases rule: key_cases [where ctx = ctx and key = key and objA = objA and objB = objB])
    case ignored
    with Cons show ?thesis by (simp add: step_ignored)
  next
    case addition
    with Cons.IH [of "R\<lparr>additions_map :=
        assign_key key (Whole (get objB key)) (additions_map R)\<rparr>"] Cons.prems
    show ?thesis by (simp add: step_addition)
  next
    case nested
    from Cons.prems(1) nested obtain n R1 where
      R1: "attach_nested key n R = Inr R1"
      and rest: "additions_updates_loop H objA objB ctx ks R1 = Inr R'"
      by (auto simp: step_nested split: sum.splits)
    from Cons.IH [OF rest attach_nested_updates_mono [OF R1 Cons.prems(2)]] show ?thesis .
  next
    case array
    from Cons.prems(1) array obtain e where
      rest: "additions_updates_loop H objA objB ctx ks
          (if \<not> e
           then R\<lparr>updates_map :=
                  assign_key key (Change (get objA key) (get objB key)) (updates_map R)\<rparr>
           else R) = Inr R'"
      by (auto simp: step_array split: sum.splits)
    from Cons.IH [OF rest] Cons.prems(2) show ?thesis
      by (simp add: map_of_assign_key)
  next
    case primitive
    from Cons.prems(1) primitive have
      rest: "additions_updates_loop H objA objB ctx ks
          (if \<not> comparePrimitives H (get objA key) (get objB key)
                 (enableTypeCoercion (options ctx))
           then R\<lparr>updates_map :=
                  assign_key key (Change (get objA key) (get objB key)) (updates_map R)\<rparr>
           else R) = Inr R'"
      by (simp add: step_primitive)
    from Cons.IH [OF rest] Cons.prems(2) show ?thesis
      by (simp add: map_of_assign_key)
  qed
qed

lemma loop_update_present:
  assumes "\<not> shouldIgnoreProperty (currentPath ctx k) (ignoreProperties (options ctx))"
    and "has_key objA k"
    and "\<not> (depth_left ctx \<and> isPlainObject (get objA k) \<and> isPlainObject (get objB k))"
    and "\<not> (isArray (get objA k) \<and> isArray (get objB k))"
    and "\<not> comparePrimitives H (get objA k) (get objB k) (enableTypeCoercion (options ctx))"
    and "k \<noteq> ''__proto__''"
  shows "additions_updates_loop H objA objB ctx ks R = Inr R' \<Longrightarrow> k \<in> set ks \<Longrightarrow>
     map_of (updates_map R') k \<noteq> None"
proof (induction ks arbitrary: R)
  case Nil
  then show ?case by simp
next
  case (Cons key ks)
  show ?case
  proof (cases "key = k")
    case True
    with Cons.prems(1) assms have
      rest: "additions_updates_loop H objA objB ctx ks
          (R\<lparr>updates_map :=
               assign_key k (Change (get objA k) (get objB k)) (updates_map R)\<rparr>) = Inr R'"
      by (simp add: step_primitive)
    show ?thesis
      by (rule loop_updates_mono [OF rest]) (simp add: map_of_assign_key assms(6))
  next
    case False
    with Cons.prems(2) have k: "k \<in> set ks" by simp
    show ?thesis
    proof (cases rule: key_cases [where ctx = ctx and key = key and objA = objA and objB = objB])
      case ignored
      with Cons.IH [OF _ k] Cons.prems(1) show ?thesis by (simp add: step_ignored)
    next
      case addition
      with Cons.IH [OF _ k] Cons.prems(1) show ?thesis by (simp add: step_addition)
    next
      case nested
      from Cons.prems(1) nested obtain n R1 where
        rest: "additions_updates_loop H objA objB ctx ks R1 = Inr R'"
        by (auto simp: step_nested split: sum.splits)
      from Cons.IH [OF rest k] show ?thesis .
    next
      case array
      from Cons.prems(1) array obtain e where
        rest: "additions_updates_loop H objA objB ctx ks
            (if \<not> e
             then R\<lparr>updates_map :=
                    assign_key key (Change (get objA key) (get objB key)) (updates_map R)\<rparr>
             else R) = Inr R'"
        by (auto simp: step_array split: sum.splits)
      from Cons.IH [OF rest k] show ?thesis .
    next
      case primitive
      from Cons.prems(1) primitive have
        rest: "additions_updates_loop H objA objB ctx ks
            (if \<not> comparePrimitives H (get objA key) (get objB key)
                   (enableTypeCoercion (options ctx))
             then R\<lparr>updates_map :=
                    assign_key key (Change (get objA key) (get objB key)) (updates_map R)\<rparr>
             else R) = Inr R'"
        by (simp add: step_primitive)
      from Cons.IH [OF rest k] show ?thesis .
    qed
  qed
qed

lemma comparePrimitives_distinct_objects:
  "r \<noteq> r' \<Longrightarrow> comparePrimitives H (JObject r fs) (JObject r' gs) c = False"
  by (simp add: comparePrimitives_def coerceValues_def)

text \<open>
  Let \<open>key\<close>, other than \<open>__proto__\<close>, be a key of both objects, not ignored, whose two
  values are plain objects at different addresses, and let no depth be left
  (\<open>depth < maxDepth\<close> is false; with \<open>maxDepth = 0\<close> that is so at every depth). Then the
  engine does not recurse: the result of comparing the two objects has the update
  \<open>{from, to}\<close> of the two values under \<open>key\<close>, and nothing under \<open>key\<close> in additions and
  deletions, whatever the contents of the two values, equal or not.
\<close>

lemma depth_boundary_update:
  assumes "\<not> depth_left ctx"
    and "has_key objA key" and "has_key objB key"
    and "get objA key = JObject r fs" and "get objB key = JObject r' gs" and "r \<noteq> r'"
    and "\<not> shouldIgnoreProperty (currentPath ctx key) (ignoreProperties (options ctx))"
    and "key \<noteq> ''__proto__''"
  shows "\<exists>am dm um.
      internalDiff H (JObject ra objA) (JObject rb objB) ctx =
        Inr \<lparr>additions = Nested am, deletions = Nested dm, updates = Nested um\<rparr> \<and>
      map_of um key = Some (Change (JObject r fs) (JObject r' gs)) \<and>
      map_of am key = None \<and> map_of dm key = None"
proof -
  note noDepth = assms(1)
  from engine_total(2) [of H objA objB ctx] obtain result where
    result: "compareObjects H objA objB ctx = Inr result" by blast
  from compareObjects_justified [OF result] obtain R :: ObjectMaps where
    shape: "result = \<lparr>additions = Nested (additions_map R),
                      deletions = Nested (deletions_map R),
                      updates = Nested (updates_map R)\<rparr>"
    and just: "justified H objA objB ctx R" by blast
  let ?R0 = "deletions_loop objA objB ctx (Object_keys objA)
      \<lparr>additions_map = [], deletions_map = [], updates_map = []\<rparr>"
  from result shape have loop: "additions_updates_loop H objA objB ctx (Object_keys objB) ?R0 =
      Inr R"
    by (auto simp: compareObjects.simps [of H objA objB ctx] split: sum.splits)
  have "map_of (updates_map R) key \<noteq> None"
  proof (rule loop_update_present [OF assms(7) assms(2) _ _ _ assms(8) loop])
    show "\<not> (depth_left ctx \<and> isPlainObject (get objA key) \<and> isPlainObject (get objB key))"
      using noDepth by simp
    show "\<not> (isArray (get objA key) \<and> isArray (get objB key))"
      using assms(4) by simp
    show "\<not> comparePrimitives H (get objA key) (get objB key) (enableTypeCoercion (options ctx))"
      using assms(4,5,6) by (simp add: comparePrimitives_distinct_objects)
    show "key \<in> set (Object_keys objB)"
      using assms(3) by (simp add: has_key_def)
  qed
  then obtain e where e: "map_of (updates_map R) key = Some e" by blast
  with just have "update_entry H objA objB ctx key e"
    by (simp add: justified_def)
  with noDepth assms(4,5) have um: "e = Change (JObject r fs) (JObject r' gs)"
    by (auto simp: update_entry_def recursed_def)
  have am: "map_of (additions_map R) key = None"
  proof (cases "map_of (additions_map R) key")
    case None
    then show ?thesis .
  next
    case (Some a)
    with just have "addition_entry H objA objB ctx key a"
      by (simp add: justified_def)
    with noDepth assms(2) show ?thesis
      by (auto simp: addition_entry_def recursed_def)
  qed
  have dm: "map_of (deletions_map R) key = None"
  proof (cases "map_of (deletions_map R) key")
    case None
    then show ?thesis .
  next
    case (Some d)
    with just have "deletion_entry H objA objB ctx key d"
      by (simp add: justified_def)
    with noDepth assms(3) show ?thesis
      by (auto simp: deletion_entry_def recursed_def)
  qed
  from result shape e um am dm show ?thesis
    by (simp add: internalDiff_objects)
qed


lemmas loop_eval = internalDiff_objects compareObjects.simps additions_updates_loop.simps(2)
  elements_loop.simps(2) compareArrays.simps object_defs shouldIgnoreProperty_def depth_left_def
  attach_nested_def any_difference_def has_keys_def empty_result_def updated_def
  comparePrimitives_def coerceValues_def num_eq_def assign_key_def

lemma depth_boundary_example:
  "diff example_host (JObject 1 [(''k'', JObject 3 [(''a'', JNum (Fin 1))])])
     (JObject 2 [(''k'', JObject 4 [(''a'', JNum (Fin 1))])])
     (no_options\<lparr>opt_maxDepth := Some (Fin 0)\<rparr>) =
   Inr \<lparr>additions = Nested [], deletions = Nested [],
        updates = Nested [(''k'', Change (JObject 3 [(''a'', JNum (Fin 1))])
                                       (JObject 4 [(''a'', JNum (Fin 1))]))]\<rparr>"
  by (simp add: options_defs loop_eval)

text \<open>
  C7. At the depth limit the pair of plain objects under a key of both objects is compared
  as an opaque value and reported as the update \<open>{from, to}\<close> under that key: so it is for
  every key but \<open>__proto__\<close> (\<open>depth_boundary_update\<close>). For the own key \<open>__proto__\<close>, which
  an object read by \<open>JSON.parse\<close> can have, the engine compares the two values in the same
  way and finds them different, but \<open>result.updates[key] = {from, to}\<close> then sets the
  prototype of the map and records nothing. With \<open>maxDepth: 0\<close>,
  \<open>diff({"__proto__": {a: 1}}, {"__proto__": {a: 1}})\<close> has three empty maps, as if the
  two objects did not differ, while the same call on the key \<open>k\<close> reports the update.
\<close>

theorem depth_boundary_proto_unreported:
  "diff example_host (JObject 1 [(''__proto__'', JObject 3 [(''a'', JNum (Fin 1))])])
     (JObject 2 [(''__proto__'', JObject 4 [(''a'', JNum (Fin 1))])])
     (no_options\<lparr>opt_maxDepth := Some (Fin 0)\<rparr>) = Inr empty_result \<and>
   \<not> comparePrimitives example_host (JObject 3 [(''a'', JNum (Fin 1))])
       (JObject 4 [(''a'', JNum (Fin 1))]) True"
  by (simp add: options_defs loop_eval)

theorem key_partition_witness:
  "internalDiff example_host
     (JObject 1 [(''u'', JObject 3 [(''a'', JNum (Fin 1)), (''b'', JNum (Fin 2))]),
                 (''x'', JNum (Fin 1))])
     (JObject 2 [(''u'', JObject 4 [(''b'', JNum (Fin 3)), (''c'', JNum (Fin 4))]),
                 (''y'', JNum (Fin 2))])
     \<lparr>path = [], depth = 0, options = DEFAULT_OPTIONS\<rparr> =
   Inr \<lparr>additions = Nested [(''u'', Nested [(''c'', Whole (JNum (Fin 4)))]),
                             (''y'', Whole (JNum (Fin 2)))],
        deletions = Nested [(''x'', Whole (JNum (Fin 1))),
                             (''u'', Nested [(''a'', Whole (JNum (Fin 1)))])],
        updates = Nested [(''u'', Nested [(''b'', Change (JNum (Fin 2)) (JNum (Fin 3)))])]\<rparr> \<and>
   scalar (map_of [(''u'', Nested [(''c'', Whole (JNum (Fin 4)))]), (''y'', Whole (JNum (Fin 2)))]
             ''y'') \<and>
   map_of [(''x'', Whole (JNum (Fin 1))), (''u'', Nested [(''a'', Whole (JNum (Fin 1)))])] ''y'' =
     None"
  using key_partition [of example_host 1
      "[(''u'', JObject 3 [(''a'', JNum (Fin 1)), (''b'', JNum (Fin 2))]), (''x'', JNum (Fin 1))]"
      2
      "[(''u'', JObject 4 [(''b'', JNum (Fin 3)), (''c'', JNum (Fin 4))]), (''y'', JNum (Fin 2))]"
      "\<lparr>path = [], depth = 0, options = DEFAULT_OPTIONS\<rparr>" _ "''y''"]
  by (simp add: DEFAULT_OPTIONS_def loop_eval)

section \<open>Ignored properties\<close>

lemma join_snoc:
  "join ''.'' (p @ [key]) = (if p = [] then key else join ''.'' p @ ''.'' @ key)"
proof (induction p)
  case Nil
  show ?case by simp
next
  case (Cons x xs)
  then show ?case by (cases xs) simp_all
qed

lemma currentPath_join: "currentPath ctx key = join ''.'' (path ctx @ [key])"
  by (simp add: currentPath_def join_snoc)

lemma clean_scalar [simp]: "clean ign pre (Whole v)" "clean ign pre (Change a b)"
  "clean ign pre (Nested [])"
  by (simp_all add: clean_def)

lemma engine_paths_replace:
  "set (engine_paths (Nested (AList.update k e m))) \<subseteq>
   insert [k] ((#) k ` set (engine_paths e)) \<union> set (engine_paths (Nested m))"
  by (induction m) auto

lemma engine_paths_update:
  "set (engine_paths (Nested (assign_key k e m))) \<subseteq>
   insert [k] ((#) k ` set (engine_paths e)) \<union> set (engine_paths (Nested m))"
  using engine_paths_replace [of k e m] by (auto simp: assign_key_def)

lemma clean_update:
  assumes "clean ign pre (Nested m)"
    and "\<not> shouldIgnoreProperty (join ''.'' (pre @ [k])) ign"
    and "clean ign (pre @ [k]) e"
  shows "clean ign pre (Nested (assign_key k e m))"
  unfolding clean_def
proof
  fix ks
  assume "ks \<in> set (engine_paths (Nested (assign_key k e m)))"
  with engine_paths_update [of k e m] consider
    "ks = [k]" | ks' where "ks = k # ks'" "ks' \<in> set (engine_paths e)"
    | "ks \<in> set (engine_paths (Nested m))"
    by blast
  then show "\<not> shouldIgnoreProperty (join ''.'' (pre @ ks)) ign"
  proof cases
    case 1
    with assms(2) show ?thesis by simp
  next
    case 2
    with assms(3) show ?thesis unfolding clean_def by simp
  next
    case 3
    with assms(1) show ?thesis unfolding clean_def by blast
  qed
qed

lemma deletions_loop_clean:
  "clean_maps ctx R \<Longrightarrow> clean_maps ctx (deletions_loop objA objB ctx ks R)"
proof (induction ks arbitrary: R)
  case Nil
  then show ?case by simp
next
  case (Cons key ks)
  have "clean_maps ctx
      (R\<lparr>deletions_map := assign_key key (Whole (get objA key)) (deletions_map R)\<rparr>)"
    if "\<not> shouldIgnoreProperty (currentPath ctx key) (ignoreProperties (options ctx))"
    using that Cons.prems by (simp add: clean_maps_def clean_update currentPath_join)
  with Cons show ?case by simp
qed

lemma attach_nested_clean:
  assumes "attach_nested key n R = Inr R'"
    and "clean_maps ctx R"
    and "\<not> shouldIgnoreProperty (currentPath ctx key) (ignoreProperties (options ctx))"
    and "clean_result (ctx\<lparr>depth := depth ctx + 1, path := path ctx @ [key]\<rparr>) n"
  shows "clean_maps ctx R'"
proof -
  from assms(1) obtain hasA hasD hasU where
    "R' = (let r1 = (if hasA then R\<lparr>additions_map :=
                       assign_key key (additions n) (additions_map R)\<rparr> else R);
              r2 = (if hasD then r1\<lparr>deletions_map :=
                       assign_key key (deletions n) (deletions_map r1)\<rparr> else r1)
          in (if hasU then r2\<lparr>updates_map :=
                       assign_key key (updates n) (updates_map r2)\<rparr> else r2))"
    by (auto simp: attach_nested_def Let_def split: sum.splits)
  with assms(2,3,4) show ?thesis
    by (simp add: clean_maps_def clean_result_def clean_update currentPath_join Let_def)
qed

lemma engine_clean:
  shows "internalDiff H a b c = Inr r \<Longrightarrow> clean_result c r"
    and "compareObjects H oa ob c2 = Inr r2 \<Longrightarrow> clean_result c2 r2"
    and "additions_updates_loop H oa' ob' c3 ks R = Inr R' \<Longrightarrow> clean_maps c3 R \<Longrightarrow>
         clean_maps c3 R'"
    and "compareArrays H xs ys c4 = Inr e \<Longrightarrow> True"
    and "elements_loop H xs' ys' c5 i = Inr e' \<Longrightarrow> True"
proof (induction H a b c and H oa ob c2 and H oa' ob' c3 ks R and H xs ys c4 and H xs' ys' c5 i
    arbitrary: r and r2 and R' and e and e'
    rule: internalDiff_compareObjects_additions_updates_loop_compareArrays_elements_loop.induct)
  case (1 H objA objB ctx)
  show ?case
  proof (cases rule: diff_cases [where a = objA and b = objB])
    case both_null
    with 1(3) show ?thesis
      by (auto simp: diff_both_null clean_result_def empty_result_def)
  next
    case left_null
    with 1(3) show ?thesis
      by (auto simp: diff_left_null clean_result_def empty_result_def)
  next
    case right_null
    with 1(3) show ?thesis
      by (auto simp: diff_right_null clean_result_def empty_result_def)
  next
    case types
    with 1(3) show ?thesis
      by (auto simp: diff_types clean_result_def updated_def empty_result_def)
  next
    case arrays
    with 1(3) show ?thesis
      by (auto simp: diff_arrays clean_result_def updated_def empty_result_def
          split: sum.splits if_splits)
  next
    case objects
    with 1(3) have "compareObjects H (properties objA) (properties objB) ctx = Inr r"
      by (simp add: diff_objects)
    from 1(2) [OF objects this] show ?thesis .
  next
    case primitives
    with 1(3) show ?thesis
      by (auto simp: diff_primitives clean_result_def updated_def empty_result_def
          split: if_splits)
  qed
next
  case (2 H objA objB ctx)
  let ?R0 = "deletions_loop objA objB ctx (Object_keys objA)
      \<lparr>additions_map = [], deletions_map = [], updates_map = []\<rparr>"
  from 2(2) obtain R where
    R: "additions_updates_loop H objA objB ctx (Object_keys objB) ?R0 = Inr R"
    and res: "r2 = \<lparr>additions = Nested (additions_map R), deletions = Nested (deletions_map R),
                    updates = Nested (updates_map R)\<rparr>"
    by (auto simp: compareObjects.simps [of H objA objB ctx] split: sum.splits)
  have "clean_maps ctx ?R0"
    by (rule deletions_loop_clean) (simp add: clean_maps_def)
  from 2(1) [OF R this] res show ?case
    by (simp add: clean_maps_def clean_result_def)
next
  case (3 H objA objB ctx result)
  then show ?case by simp
next
  case (4 H objA objB ctx key keysB result)
  show ?case
  proof (cases rule: key_cases [where ctx = ctx and key = key and objA = objA and objB = objB])
    case ignored
    with 4(1) [OF ignored _ 4(9)] 4(8) show ?thesis by (simp add: step_ignored)
  next
    case addition
    have "clean_maps ctx
        (result\<lparr>additions_map := assign_key key (Whole (get objB key)) (additions_map result)\<rparr>)"
      using addition(1) 4(9) by (simp add: clean_maps_def clean_update currentPath_join)
    with 4(2) [OF addition] 4(8) addition show ?thesis by (simp add: step_addition)
  next
    case nested
    from 4(8) nested obtain n R1 where
      n: "internalDiff H (get objA key) (get objB key)
            (ctx\<lparr>depth := depth ctx + 1, path := path ctx @ [key]\<rparr>) = Inr n"
      and R1: "attach_nested key n result = Inr R1"
      and rest: "additions_updates_loop H objA objB ctx keysB R1 = Inr R'"
      by (auto simp: step_nested split: sum.splits)
    from 4(3) [OF nested(1) _ nested(3) n] nested(2)
    have "clean_result (ctx\<lparr>depth := depth ctx + 1, path := path ctx @ [key]\<rparr>) n" by simp
    from attach_nested_clean [OF R1 4(9) nested(1) this] have "clean_maps ctx R1" .
    from 4(4) [OF nested(1) _ nested(3) n R1 rest this] nested(2) show ?thesis by simp
  next
    case array
    from 4(8) array obtain e where
      e: "compareArrays H (elements (get objA key)) (elements (get objB key))
            (ctx\<lparr>path := path ctx @ [key]\<rparr>) = Inr e"
      and rest: "additions_updates_loop H objA objB ctx keysB
          (if \<not> e
           then result\<lparr>updates_map :=
                  assign_key key (Change (get objA key) (get objB key)) (updates_map result)\<rparr>
           else result) = Inr R'"
      by (auto simp: step_array split: sum.splits)
    have "clean_maps ctx
        (if \<not> e
         then result\<lparr>updates_map :=
                assign_key key (Change (get objA key) (get objB key)) (updates_map result)\<rparr>
         else result)"
      using array(1) 4(9) by (simp add: clean_maps_def clean_update currentPath_join)
    from 4(6) [OF array(1) _ array(3) array(4) e rest this] array(2) show ?thesis by simp
  next
    case primitive
    from 4(8) primitive have
      rest: "additions_updates_loop H objA objB ctx keysB
          (if \<not> comparePrimitives H (get objA key) (get objB key)
                 (enableTypeCoercion (options ctx))
           then result\<lparr>updates_map :=
                  assign_key key (Change (get objA key) (get objB key)) (updates_map result)\<rparr>
           else result) = Inr R'"
      by (simp add: step_primitive)
    have "clean_maps ctx
        (if \<not> comparePrimitives H (get objA key) (get objB key)
               (enableTypeCoercion (options ctx))
         then result\<lparr>updates_map :=
                assign_key key (Change (get objA key) (get objB key)) (updates_map result)\<rparr>
         else result)"
      using primitive(1) 4(9) by (simp add: clean_maps_def clean_update currentPath_join)
    from 4(7) [OF primitive(1) _ primitive(3) primitive(4) rest this] primitive(2)
    show ?thesis by simp
  qed
next
  case (5 H arrayA arrayB ctx)
  show ?case ..
next
  case (6 H restB ctx i)
  show ?case ..
next
  case (7 H itemA restA restB ctx i)
  show ?case ..
qed

text \<open>
  C3, as the code has it. A key path of the maps that the engine builds, at any nesting
  level, never matches an ignore pattern. (A value stored whole in the result, as an
  addition, a deletion, a side of an update, or the whole input when the other one is
  \<open>null\<close>, is stored with all its keys.)
\<close>

theorem ignored_paths_absent:
  assumes "diff H objectA objectB opts = Inr result"
    and "ks \<in> set (engine_paths (additions result)) \<union> set (engine_paths (deletions result)) \<union>
              set (engine_paths (updates result))"
  shows "\<not> shouldIgnoreProperty (join ''.'' ks) (ignoreProperties (mergedOptions opts))"
  using engine_clean(1) [of H objectA objectB
      "\<lparr>path = [], depth = 0, options = mergedOptions opts\<rparr>" result] assms
  by (auto simp: diff_def clean_result_def clean_def)

theorem ignored_paths_absent_witness:
  "diff example_host
     (JObject 1 [(''user'', JObject 3 [(''_id'', JStr ''123''), (''age'', JNum (Fin 30))])])
     (JObject 2 [(''user'', JObject 4 [(''_id'', JStr ''456''), (''age'', JNum (Fin 31))])])
     (no_options\<lparr>opt_ignoreProperties := Some [''user._id'']\<rparr>) =
   Inr \<lparr>additions = Nested [], deletions = Nested [],
        updates = Nested [(''user'', Nested [(''age'', Change (JNum (Fin 30)) (JNum (Fin 31)))])]\<rparr> \<and>
   [''user'', ''age''] \<in> set (engine_paths
      (Nested [(''user'', Nested [(''age'', Change (JNum (Fin 30)) (JNum (Fin 31)))])])) \<and>
   shouldIgnoreProperty (join ''.'' [''user'', ''age'']) [''user._id''] = False"
  using ignored_paths_absent [of example_host
      "JObject 1 [(''user'', JObject 3 [(''_id'', JStr ''123''), (''age'', JNum (Fin 30))])]"
      "JObject 2 [(''user'', JObject 4 [(''_id'', JStr ''456''), (''age'', JNum (Fin 31))])]"
      "no_options\<lparr>opt_ignoreProperties := Some [''user._id'']\<rparr>" _ "[''user'', ''age'']"]
  by (simp add: options_defs loop_eval ignore_matches_def)

text \<open>
  C3 as it is stated fails: a value that the engine stores whole keeps the keys that match
  an ignore pattern. With \<open>ignoreProperties: ["user._id"]\<close>,
  \<open>diff({}, {user: {_id: "1"}})\<close> has the addition \<open>user: {_id: "1"}\<close>, whose key path
  \<open>user._id\<close> is ignored; with \<open>ignoreProperties: ["_id"]\<close>, \<open>diff(null, {_id: "1"})\<close> has
  the additions \<open>{_id: "1"}\<close>.
\<close>

theorem ignored_path_in_stored_value:
  "diff example_host (JObject 1 []) (JObject 2 [(''user'', JObject 3 [(''_id'', JStr ''1'')])])
     (no_options\<lparr>opt_ignoreProperties := Some [''user._id'']\<rparr>) =
   Inr \<lparr>additions = Nested [(''user'', Whole (JObject 3 [(''_id'', JStr ''1'')]))],
        deletions = Nested [], updates = Nested []\<rparr> \<and>
   [''user'', ''_id''] \<in>
     set (result_paths (Nested [(''user'', Whole (JObject 3 [(''_id'', JStr ''1'')]))])) \<and>
   shouldIgnoreProperty (join ''.'' [''user'', ''_id'']) [''user._id''] \<and>
   diff example_host JNull (JObject 2 [(''_id'', JStr ''1'')])
     (no_options\<lparr>opt_ignoreProperties := Some [''_id'']\<rparr>) =
   Inr \<lparr>additions = Whole (JObject 2 [(''_id'', JStr ''1'')]),
        deletions = Nested [], updates = Nested []\<rparr> \<and>
   [''_id''] \<in> set (result_paths (Whole (JObject 2 [(''_id'', JStr ''1'')]))) \<and>
   shouldIgnoreProperty (join ''.'' [''_id'']) [''_id'']"
  by (simp add: options_defs loop_eval ignore_matches_def diff_left_null)

section \<open>A value compared with itself\<close>

lemma self_equal_array: "self_equal n (JArray r xs) = list_all (item_equal n) xs"
  by (auto simp: item_equal_def list_all_iff)

lemma self_equal_object:
  "self_equal n (JObject r fs) = list_all (\<lambda>key. value_equal n (get fs key)) (Object_keys fs)"
  by (auto simp: value_equal_def list_all_iff)

lemma comparePrimitives_self: "comparePrimitives H v v c = strict_equal v v"
  by (cases v) (simp_all add: comparePrimitives_def coerceValues_def)

lemma self_equal_other:
  "\<not> isArray v \<Longrightarrow> \<not> isPlainObject v \<Longrightarrow> self_equal n v = strict_equal v v"
  by (cases v) simp_all

declare self_equal.simps [simp del]

lemma item_kind: "non_object_item v \<or> object_item v"
  by (cases v) (simp_all add: non_object_item_def object_item_def)

lemma object_item_not_array: "object_item v \<Longrightarrow> \<not> isArray v"
  by (simp add: object_item_def)

lemma object_item_other: "object_item v \<Longrightarrow> \<not> non_object_item v"
  by (auto simp: object_item_def non_object_item_def)

lemma get_in_values: "has_key obj key \<Longrightarrow> \<exists>p \<in> set obj. fst p = key \<and> get obj key = snd p"
proof -
  assume "has_key obj key"
  then have "map_of obj key \<noteq> None"
    by (simp add: has_key_def Object_keys_def map_of_eq_None_iff)
  then obtain v where v: "map_of obj key = Some v" by blast
  then have "(key, v) \<in> set obj" by (rule map_of_SomeD)
  with v show ?thesis by (force simp: get_def)
qed

lemma deletions_loop_same:
  "set ks \<subseteq> set (Object_keys obj) \<Longrightarrow> deletions_loop obj obj ctx ks R = R"
  by (induction ks arbitrary: R) (simp_all add: has_key_def)

lemma assign_key_not_empty: "key \<noteq> ''__proto__'' \<Longrightarrow> assign_key key v m \<noteq> []"
  by (cases m) (simp_all add: assign_key_def)

lemma has_keys_updates:
  "has_keys (Nested m) = Inr (Nested m \<noteq> Nested [])"
  "has_keys (Change x y) = Inr (Change x y \<noteq> Nested [])"
  by (simp_all add: has_keys_def)

lemma attach_nested_updates:
  assumes "has_keys u = Inr (u \<noteq> Nested [])"
  shows "attach_nested key \<lparr>additions = Nested [], deletions = Nested [], updates = u\<rparr> R =
     Inr (if u \<noteq> Nested [] then R\<lparr>updates_map := assign_key key u (updates_map R)\<rparr> else R)"
  using assms by (simp add: attach_nested_def has_keys_def)

lemma any_difference_updates:
  assumes "has_keys u = Inr (u \<noteq> Nested [])"
  shows "any_difference \<lparr>additions = Nested [], deletions = Nested [], updates = u\<rparr> =
     Inr (u \<noteq> Nested [])"
  using assms by (simp add: any_difference_def has_keys_def)

lemma default_depth_left:
  "options ctx = DEFAULT_OPTIONS \<Longrightarrow> depth_left ctx = (0 < 10 - depth ctx)"
  by (auto simp: depth_left_def DEFAULT_OPTIONS_def)

lemma default_not_ignored:
  "options ctx = DEFAULT_OPTIONS \<Longrightarrow>
   \<not> shouldIgnoreProperty p (ignoreProperties (options ctx))"
  by (simp add: shouldIgnoreProperty_def DEFAULT_OPTIONS_def)

lemma engine_identity:
  shows "a = b \<Longrightarrow> options c = DEFAULT_OPTIONS \<Longrightarrow>
         \<exists>u. internalDiff H a b c =
               Inr \<lparr>additions = Nested [], deletions = Nested [], updates = u\<rparr> \<and>
             has_keys u = Inr (u \<noteq> Nested []) \<and>
             (self_equal (10 - depth c) a \<longrightarrow> u = Nested []) \<and>
             (proto_free a \<longrightarrow> u = Nested [] \<longrightarrow> self_equal (10 - depth c) a)"
    and "oa = ob \<Longrightarrow> options c2 = DEFAULT_OPTIONS \<Longrightarrow>
         \<exists>um. compareObjects H oa ob c2 =
                Inr \<lparr>additions = Nested [], deletions = Nested [], updates = Nested um\<rparr> \<and>
              (self_equal (10 - depth c2) (JObject 0 oa) \<longrightarrow> um = []) \<and>
              (proto_free (JObject 0 oa) \<longrightarrow> um = [] \<longrightarrow>
               self_equal (10 - depth c2) (JObject 0 oa))"
    and "oa' = ob' \<Longrightarrow> options c3 = DEFAULT_OPTIONS \<Longrightarrow> set ks \<subseteq> set (Object_keys oa') \<Longrightarrow>
         \<exists>um. additions_updates_loop H oa' ob' c3 ks R = Inr (R\<lparr>updates_map := um\<rparr>) \<and>
              (list_all (\<lambda>key. value_equal (10 - depth c3) (get oa' key)) ks \<longrightarrow>
               um = updates_map R) \<and>
              (proto_free (JObject 0 oa') \<longrightarrow> um = [] \<longrightarrow>
               updates_map R = [] \<and>
               list_all (\<lambda>key. value_equal (10 - depth c3) (get oa' key)) ks)"
    and "xs = ys \<Longrightarrow> options c4 = DEFAULT_OPTIONS \<Longrightarrow>
         \<exists>e. compareArrays H xs ys c4 = Inr e \<and>
             (list_all (item_equal (10 - depth c4)) xs \<longrightarrow> e) \<and>
             (list_all proto_free xs \<longrightarrow> e \<longrightarrow> list_all (item_equal (10 - depth c4)) xs)"
    and "xs' = ys' \<Longrightarrow> options c5 = DEFAULT_OPTIONS \<Longrightarrow>
         \<exists>e. elements_loop H xs' ys' c5 i = Inr e \<and>
             (list_all (item_equal (10 - depth c5)) xs' \<longrightarrow> e) \<and>
             (list_all proto_free xs' \<longrightarrow> e \<longrightarrow> list_all (item_equal (10 - depth c5)) xs')"
proof (induction H a b c and H oa ob c2 and H oa' ob' c3 ks R and H xs ys c4 and H xs' ys' c5 i
    rule: internalDiff_compareObjects_additions_updates_loop_compareArrays_elements_loop.induct)
  case (1 H objA objB ctx)
  note eq = \<open>objA = objB\<close> and op = \<open>options ctx = DEFAULT_OPTIONS\<close>
  show ?case
  proof (cases rule: diff_cases [where a = objA and b = objB])
    case both_null
    then have "self_equal (10 - depth ctx) objA" by (cases objA) (simp_all add: self_equal_other)
    with both_null show ?thesis
      by (simp add: diff_both_null empty_result_def has_keys_def)
  next
    case left_null
    with eq show ?thesis by simp
  next
    case right_null
    with eq show ?thesis by simp
  next
    case types
    with eq show ?thesis by simp
  next
    case arrays
    then obtain r xs where xs: "objA = JArray r xs" by (cases objA) simp_all
    from eq have "elements objA = elements objB" by simp
    from 1(1) [OF arrays this op] obtain e where
      run: "compareArrays H (elements objA) (elements objB) ctx = Inr e"
      and fwd: "list_all (item_equal (10 - depth ctx)) (elements objA) \<longrightarrow> e"
      and bwd: "list_all proto_free (elements objA) \<longrightarrow> e \<longrightarrow>
          list_all (item_equal (10 - depth ctx)) (elements objA)"
      by blast
    let ?u = "if e then Nested [] else Change objA objB"
    from arrays run have "internalDiff H objA objB ctx =
        Inr \<lparr>additions = Nested [], deletions = Nested [], updates = ?u\<rparr>"
      by (simp add: diff_arrays updated_def empty_result_def)
    moreover have "has_keys ?u = Inr (?u \<noteq> Nested [])"
      by (simp add: has_keys_def)
    moreover have "self_equal (10 - depth ctx) objA \<longrightarrow> ?u = Nested []"
      using fwd xs by (simp add: self_equal_array)
    moreover have "proto_free objA \<longrightarrow> ?u = Nested [] \<longrightarrow> self_equal (10 - depth ctx) objA"
      using bwd xs by (simp add: self_equal_array)
    ultimately show ?thesis by blast
  next
    case objects
    then obtain r fs where fs: "objA = JObject r fs" by (cases objA) simp_all
    from eq have "properties objA = properties objB" by simp
    from 1(2) [OF objects this op] obtain um where
      run: "compareObjects H (properties objA) (properties objB) ctx =
          Inr \<lparr>additions = Nested [], deletions = Nested [], updates = Nested um\<rparr>"
      and fwd: "self_equal (10 - depth ctx) (JObject 0 (properties objA)) \<longrightarrow> um = []"
      and bwd: "proto_free (JObject 0 (properties objA)) \<longrightarrow> um = [] \<longrightarrow>
          self_equal (10 - depth ctx) (JObject 0 (properties objA))"
      by blast
    from objects run have "internalDiff H objA objB ctx =
        Inr \<lparr>additions = Nested [], deletions = Nested [], updates = Nested um\<rparr>"
      by (simp add: diff_objects)
    moreover have "has_keys (Nested um) = Inr (Nested um \<noteq> Nested [])"
      by (rule has_keys_updates)
    moreover have "self_equal (10 - depth ctx) objA \<longrightarrow> Nested um = Nested []"
      using fwd fs by (simp add: self_equal_object)
    moreover have "proto_free objA \<longrightarrow> Nested um = Nested [] \<longrightarrow>
        self_equal (10 - depth ctx) objA"
      using bwd fs by (simp add: self_equal_object)
    ultimately show ?thesis by blast
  next
    case primitives
    with eq have kind: "\<not> isArray objA" "\<not> isPlainObject objA" by simp_all
    let ?u = "if strict_equal objA objA then Nested [] else Change objA objB"
    from primitives eq op have "internalDiff H objA objB ctx =
        Inr \<lparr>additions = Nested [], deletions = Nested [], updates = ?u\<rparr>"
      by (simp add: diff_primitives comparePrimitives_self updated_def empty_result_def)
    moreover have "has_keys ?u = Inr (?u \<noteq> Nested [])"
      by (simp add: has_keys_def)
    moreover have "self_equal (10 - depth ctx) objA = strict_equal objA objA"
      using kind by (rule self_equal_other)
    ultimately show ?thesis by auto
  qed
next
  case (2 H objA objB ctx)
  note eq = \<open>objA = objB\<close> and op = \<open>options ctx = DEFAULT_OPTIONS\<close>
  let ?R0 = "\<lparr>additions_map = [], deletions_map = [], updates_map = []\<rparr>"
  from eq have R0: "deletions_loop objA objB ctx (Object_keys objA) ?R0 = ?R0"
    by (simp add: deletions_loop_same)
  from eq have "set (Object_keys objB) \<subseteq> set (Object_keys objA)" by simp
  from 2(1) [OF eq op this] R0 obtain um where
    run: "additions_updates_loop H objA objB ctx (Object_keys objB) ?R0 =
        Inr (?R0\<lparr>updates_map := um\<rparr>)"
    and fwd: "list_all (\<lambda>key. value_equal (10 - depth ctx) (get objA key)) (Object_keys objB) \<longrightarrow>
        um = []"
    and bwd: "proto_free (JObject 0 objA) \<longrightarrow> um = [] \<longrightarrow>
        list_all (\<lambda>key. value_equal (10 - depth ctx) (get objA key)) (Object_keys objB)"
    by auto
  from run R0 have "compareObjects H objA objB ctx =
      Inr \<lparr>additions = Nested [], deletions = Nested [], updates = Nested um\<rparr>"
    by (simp add: compareObjects.simps [of H objA objB ctx])
  moreover from fwd eq have "self_equal (10 - depth ctx) (JObject 0 objA) \<longrightarrow> um = []"
    by (simp only: self_equal_object)
  moreover from bwd eq have "proto_free (JObject 0 objA) \<longrightarrow> um = [] \<longrightarrow>
      self_equal (10 - depth ctx) (JObject 0 objA)"
    by (simp only: self_equal_object)
  ultimately show ?case by blast
next
  case (3 H objA objB ctx result)
  show ?case by simp
next
  case (4 H objA objB ctx key keysB result)
  note eq = \<open>objA = objB\<close> and op = \<open>options ctx = DEFAULT_OPTIONS\<close>
  let ?n = "10 - depth ctx"
  let ?ok = "\<lambda>key. value_equal ?n (get objA key)"
  from 4(10) have inA: "has_key objA key" and sub: "set keysB \<subseteq> set (Object_keys objA)"
    by (simp_all add: has_key_def)
  from inA have notnot: "\<not> \<not> has_key objA key" by simp
  from eq have same: "get objB key = get objA key" by simp
  from get_in_values [OF inA] obtain p where
    p: "p \<in> set objA" "fst p = key" "get objA key = snd p" by blast
  have free: "key \<noteq> ''__proto__'' \<and> proto_free (get objA key)" if "proto_free (JObject 0 objA)"
    using that p by (auto simp: list_all_iff)
  have left: "depth_left ctx = (0 < ?n)"
    using op by (rule default_depth_left)
  have step: "\<exists>um. additions_updates_loop H objA objB ctx keysB R1 = Inr (result\<lparr>updates_map := um\<rparr>) \<and>
      (list_all ?ok (key # keysB) \<longrightarrow> um = updates_map result) \<and>
      (proto_free (JObject 0 objA) \<longrightarrow> um = [] \<longrightarrow>
       updates_map result = [] \<and> list_all ?ok (key # keysB))"
    if rest: "\<exists>um. additions_updates_loop H objA objB ctx keysB R1 = Inr (R1\<lparr>updates_map := um\<rparr>) \<and>
        (list_all ?ok keysB \<longrightarrow> um = updates_map R1) \<and>
        (proto_free (JObject 0 objA) \<longrightarrow> um = [] \<longrightarrow> updates_map R1 = [] \<and> list_all ?ok keysB)"
      and R1: "R1 = (if good then result else result\<lparr>updates_map := assign_key key u (updates_map result)\<rparr>)"
      and fwd: "?ok key \<longrightarrow> good"
      and bwd: "proto_free (get objA key) \<longrightarrow> good \<longrightarrow> ?ok key"
    for R1 good u
  proof -
    from rest obtain um where
      run: "additions_updates_loop H objA objB ctx keysB R1 = Inr (R1\<lparr>updates_map := um\<rparr>)"
      and f: "list_all ?ok keysB \<longrightarrow> um = updates_map R1"
      and b: "proto_free (JObject 0 objA) \<longrightarrow> um = [] \<longrightarrow> updates_map R1 = [] \<and> list_all ?ok keysB"
      by blast
    from R1 have "R1\<lparr>updates_map := um\<rparr> = result\<lparr>updates_map := um\<rparr>" by simp
    with run have "additions_updates_loop H objA objB ctx keysB R1 = Inr (result\<lparr>updates_map := um\<rparr>)"
      by simp
    moreover have "list_all ?ok (key # keysB) \<longrightarrow> um = updates_map result"
      using f fwd R1 by simp
    moreover have "updates_map result = [] \<and> list_all ?ok (key # keysB)"
      if pf: "proto_free (JObject 0 objA)" and "um = []"
    proof -
      from b that have u1: "updates_map R1 = []" and okr: "list_all ?ok keysB" by simp_all
      from free [OF pf] have k: "key \<noteq> ''__proto__''" and v: "proto_free (get objA key)"
        by simp_all
      from u1 R1 assign_key_not_empty [OF k, of u "updates_map result"]
      have good: good and "updates_map result = []"
        by (auto split: if_splits)
      with bwd v okr show ?thesis by simp
    qed
    ultimately show ?thesis by blast
  qed
  from op have notIgnored:
    "\<not> shouldIgnoreProperty (currentPath ctx key) (ignoreProperties (options ctx))"
    by (rule default_not_ignored)
  show ?case
  proof (cases rule: key_cases [where ctx = ctx and key = key and objA = objA and objB = objB])
    case ignored
    with notIgnored show ?thesis by simp
  next
    case addition
    with inA show ?thesis by simp
  next
    case nested
    let ?ctx' = "ctx\<lparr>depth := depth ctx + 1, path := path ctx @ [key]\<rparr>"
    have op': "options ?ctx' = DEFAULT_OPTIONS" using op by simp
    have n': "10 - depth ?ctx' = ?n - 1" by simp
    from 4(3) [OF nested(1) notnot nested(3) same [symmetric] op'] obtain u where
      n: "internalDiff H (get objA key) (get objB key) ?ctx' =
          Inr \<lparr>additions = Nested [], deletions = Nested [], updates = u\<rparr>"
      and hk: "has_keys u = Inr (u \<noteq> Nested [])"
      and fwd: "self_equal (?n - 1) (get objA key) \<longrightarrow> u = Nested []"
      and bwd: "proto_free (get objA key) \<longrightarrow> u = Nested [] \<longrightarrow> self_equal (?n - 1) (get objA key)"
      unfolding n' by blast
    let ?R1 = "if u = Nested [] then result
        else result\<lparr>updates_map := assign_key key u (updates_map result)\<rparr>"
    have att: "attach_nested key \<lparr>additions = Nested [], deletions = Nested [], updates = u\<rparr>
        result = Inr ?R1"
      using attach_nested_updates [OF hk, of key result] by simp
    have ok: "?ok key = self_equal (?n - 1) (get objA key)"
      using nested(3) left by (simp add: value_equal_def)
    from 4(4) [OF nested(1) notnot nested(3) n att eq op sub]
    have "\<exists>um. additions_updates_loop H objA objB ctx keysB ?R1 = Inr (result\<lparr>updates_map := um\<rparr>) \<and>
      (list_all ?ok (key # keysB) \<longrightarrow> um = updates_map result) \<and>
      (proto_free (JObject 0 objA) \<longrightarrow> um = [] \<longrightarrow>
       updates_map result = [] \<and> list_all ?ok (key # keysB))"
      by (rule step) (use fwd bwd ok in simp_all)
    with nested n att show ?thesis
      by (simp add: step_nested)
  next
    case array
    let ?ctx' = "ctx\<lparr>path := path ctx @ [key]\<rparr>"
    have op': "options ?ctx' = DEFAULT_OPTIONS" using op by simp
    from array(4) obtain r xs where xs: "get objA key = JArray r xs"
      by (cases "get objA key") simp_all
    from same have "elements (get objA key) = elements (get objB key)" by simp
    from 4(5) [OF array(1) notnot array(3) array(4) this op'] obtain e where
      e: "compareArrays H (elements (get objA key)) (elements (get objB key)) ?ctx' = Inr e"
      and fwd: "list_all (item_equal ?n) (elements (get objA key)) \<longrightarrow> e"
      and bwd: "list_all proto_free (elements (get objA key)) \<longrightarrow> e \<longrightarrow>
          list_all (item_equal ?n) (elements (get objA key))"
      by auto
    let ?R1 = "if \<not> e
        then result\<lparr>updates_map :=
               assign_key key (Change (get objA key) (get objB key)) (updates_map result)\<rparr>
        else result"
    have ok: "?ok key = list_all (item_equal ?n) xs"
      using xs by (simp add: value_equal_def self_equal_array)
    from 4(6) [OF array(1) notnot array(3) array(4) e eq op sub]
    have "\<exists>um. additions_updates_loop H objA objB ctx keysB ?R1 = Inr (result\<lparr>updates_map := um\<rparr>) \<and>
      (list_all ?ok (key # keysB) \<longrightarrow> um = updates_map result) \<and>
      (proto_free (JObject 0 objA) \<longrightarrow> um = [] \<longrightarrow>
       updates_map result = [] \<and> list_all ?ok (key # keysB))"
      by (rule step [where good = e]) (use fwd bwd ok xs in auto)
    with array e show ?thesis
      by (simp add: step_array)
  next
    case primitive
    let ?c = "comparePrimitives H (get objA key) (get objB key) (enableTypeCoercion (options ctx))"
    let ?R1 = "if \<not> ?c
        then result\<lparr>updates_map :=
               assign_key key (Change (get objA key) (get objB key)) (updates_map result)\<rparr>
        else result"
    have c: "?c = strict_equal (get objA key) (get objA key)"
      using same by (simp add: comparePrimitives_self)
    have ok: "?ok key = strict_equal (get objA key) (get objA key)"
      using primitive(3,4) left same by (auto simp: value_equal_def)
    from 4(7) [OF primitive(1) notnot primitive(3) primitive(4) eq op sub]
    have "\<exists>um. additions_updates_loop H objA objB ctx keysB ?R1 = Inr (result\<lparr>updates_map := um\<rparr>) \<and>
      (list_all ?ok (key # keysB) \<longrightarrow> um = updates_map result) \<and>
      (proto_free (JObject 0 objA) \<longrightarrow> um = [] \<longrightarrow>
       updates_map result = [] \<and> list_all ?ok (key # keysB))"
      by (rule step [where good = ?c]) (use c ok in auto)
    with primitive show ?thesis
      by (simp add: step_primitive)
  qed
next
  case (5 H arrayA arrayB ctx)
  note eq = \<open>arrayA = arrayB\<close> and op = \<open>options ctx = DEFAULT_OPTIONS\<close>
  show ?case
  proof (cases rule: arrays_cases [where arrayA = arrayA and arrayB = arrayB and ctx = ctx])
    case lengths
    with eq show ?thesis by simp
  next
    case empty
    then show ?thesis by (auto simp: arrays_empty)
  next
    case sorted
    with op show ?thesis by (simp add: DEFAULT_OPTIONS_def)
  next
    case in_order
    with 5(1) [OF in_order eq op] show ?thesis by (simp add: arrays_in_order)
  qed
next
  case (6 H restB ctx i)
  show ?case by auto
next
  case (7 H itemA restA restB ctx i)
  note eq = \<open>itemA # restA = restB\<close> and op = \<open>options ctx = DEFAULT_OPTIONS\<close>
  let ?n = "10 - depth ctx"
  from eq have fst: "first restB = itemA" and tl: "restA = tl restB" by auto
  have left: "depth_left ctx = (0 < ?n)"
    using op by (rule default_depth_left)
  show ?case
  proof (cases rule: item_cases [where itemA = itemA and itemB = "first restB" and ctx = ctx])
    case primitive
    let ?c = "comparePrimitives H itemA (first restB) (enableTypeCoercion (options ctx))"
    have c: "?c = strict_equal itemA itemA"
      using fst by (simp add: comparePrimitives_self)
    have ok: "item_equal ?n itemA = strict_equal itemA itemA"
      using primitive fst by (simp add: item_equal_def)
    show ?thesis
    proof (cases ?c)
      case True
      from 7(1) [OF primitive _ tl op] True obtain e where
        "elements_loop H restA (tl restB) ctx (i + 1) = Inr e"
        and "list_all (item_equal ?n) restA \<longrightarrow> e"
        and "list_all proto_free restA \<longrightarrow> e \<longrightarrow> list_all (item_equal ?n) restA"
        by auto
      with primitive True c ok show ?thesis
        by (auto simp: item_primitive)
    next
      case False
      with primitive c ok show ?thesis
        by (auto simp: item_primitive)
    qed
  next
    case object
    let ?ctx' = "ctx\<lparr>depth := depth ctx + 1, path := path ctx @ [index_toString i]\<rparr>"
    have op': "options ?ctx' = DEFAULT_OPTIONS" using op by simp
    have n': "10 - depth ?ctx' = ?n - 1" by simp
    from 7(2) [OF object fst [symmetric] op'] obtain u where
      n: "internalDiff H itemA (first restB) ?ctx' =
          Inr \<lparr>additions = Nested [], deletions = Nested [], updates = u\<rparr>"
      and hk: "has_keys u = Inr (u \<noteq> Nested [])"
      and fwd: "self_equal (?n - 1) itemA \<longrightarrow> u = Nested []"
      and bwd: "proto_free itemA \<longrightarrow> u = Nested [] \<longrightarrow> self_equal (?n - 1) itemA"
      unfolding n' by blast
    note d = any_difference_updates [OF hk]
    have ok: "item_equal ?n itemA = self_equal (?n - 1) itemA"
      using object(2) left fst by (simp add: item_equal_def object_item_other)
    show ?thesis
    proof (cases "u = Nested []")
      case True
      with d have d': "any_difference \<lparr>additions = Nested [], deletions = Nested [], updates = u\<rparr> =
          Inr False" by simp
      from 7(3) [OF object n d' _ tl op] obtain e where
        "elements_loop H restA (tl restB) ctx (i + 1) = Inr e"
        and "list_all (item_equal ?n) restA \<longrightarrow> e"
        and "list_all proto_free restA \<longrightarrow> e \<longrightarrow> list_all (item_equal ?n) restA"
        by auto
      with object n d' True ok bwd show ?thesis
        by (auto simp: item_object)
    next
      case False
      with d have d': "any_difference \<lparr>additions = Nested [], deletions = Nested [], updates = u\<rparr> =
          Inr True" by simp
      with object n False ok fwd show ?thesis
        by (auto simp: item_object)
    qed
  next
    case mismatch
    from mismatch(1) fst item_kind [of itemA] have obj: "object_item itemA" by auto
    with mismatch(2) fst left have "\<not> 0 < ?n" by simp
    with obj have "\<not> item_equal ?n itemA"
      by (simp add: item_equal_def object_item_other)
    with mismatch show ?thesis by (auto simp: item_mismatch)
  qed
qed

text \<open>
  C1, as the code has it. With the default options, \<open>diff(v, v)\<close> has three empty maps
  whenever \<open>v\<close> is equal to itself within the 10 levels of the default \<open>maxDepth\<close>: no
  number that the engine compares is \<open>NaN\<close>, and no array holds an object below 10 levels.
  Nothing more is left out: for a value without a key \<open>__proto__\<close>, \<open>diff(v, v)\<close> has three
  empty maps only if \<open>v\<close> is equal to itself in this sense.
\<close>

theorem identity_of_self_equal:
  "(self_equal 10 v \<longrightarrow> diff H v v no_options = Inr empty_result) \<and>
   (proto_free v \<longrightarrow> diff H v v no_options = Inr empty_result \<longrightarrow> self_equal 10 v)"
proof -
  let ?ctx = "\<lparr>path = [], depth = 0, options = mergedOptions no_options\<rparr>"
  have "options ?ctx = DEFAULT_OPTIONS"
    by (simp add: mergedOptions_def no_options_def DEFAULT_OPTIONS_def)
  from engine_identity(1) [OF refl this, of H v] obtain u where
    "internalDiff H v v ?ctx = Inr \<lparr>additions = Nested [], deletions = Nested [], updates = u\<rparr>"
    and "self_equal 10 v \<longrightarrow> u = Nested []"
    and "proto_free v \<longrightarrow> u = Nested [] \<longrightarrow> self_equal 10 v"
    by auto
  then show ?thesis
    by (simp add: diff_def empty_result_def)
qed

theorem identity_of_self_equal_witness:
  "self_equal 10 (JObject 1 [(''name'', JStr ''John''), (''age'', JNum (Fin 30)),
                             (''tags'', JArray 2 [JStr ''js'', JObject 3 [(''id'', JNull)]])]) \<and>
   diff example_host
     (JObject 1 [(''name'', JStr ''John''), (''age'', JNum (Fin 30)),
                 (''tags'', JArray 2 [JStr ''js'', JObject 3 [(''id'', JNull)]])])
     (JObject 1 [(''name'', JStr ''John''), (''age'', JNum (Fin 30)),
                 (''tags'', JArray 2 [JStr ''js'', JObject 3 [(''id'', JNull)]])])
     no_options = Inr empty_result \<and>
   proto_free (nest 12 (JObject 100 [(''v'', JNum (Fin 1))])) \<and>
   self_equal 10 (nest 12 (JObject 100 [(''v'', JNum (Fin 1))])) \<and>
   diff example_host (nest 12 (JObject 100 [(''v'', JNum (Fin 1))]))
     (nest 12 (JObject 100 [(''v'', JNum (Fin 1))])) no_options = Inr empty_result \<and>
   proto_free (JObject 1 [(''x'', JNum NaN)]) \<and>
   \<not> self_equal 10 (JObject 1 [(''x'', JNum NaN)]) \<and>
   diff example_host (JObject 1 [(''x'', JNum NaN)]) (JObject 1 [(''x'', JNum NaN)]) no_options \<noteq>
     Inr empty_result"
proof -
  let ?john = "JObject 1 [(''name'', JStr ''John''), (''age'', JNum (Fin 30)),
      (''tags'', JArray 2 [JStr ''js'', JObject 3 [(''id'', JNull)]])]"
  let ?deep = "nest 12 (JObject 100 [(''v'', JNum (Fin 1))])"
  let ?nan = "JObject 1 [(''x'', JNum NaN)]"
  have john: "self_equal 10 ?john" by code_simp
  have deep: "proto_free ?deep" "self_equal 10 ?deep" by code_simp+
  have nan: "proto_free ?nan" "\<not> self_equal 10 ?nan" by code_simp+
  from identity_of_self_equal [of ?john example_host] john
  have 1: "diff example_host ?john ?john no_options = Inr empty_result" by blast
  from identity_of_self_equal [of ?deep example_host] deep
  have 2: "diff example_host ?deep ?deep no_options = Inr empty_result" by blast
  from identity_of_self_equal [of ?nan example_host] nan
  have 3: "diff example_host ?nan ?nan no_options \<noteq> Inr empty_result" by blast
  from john deep nan 1 2 3 show ?thesis by blast
qed

text \<open>
  C1 as it is stated fails. \<open>diff(NaN, NaN)\<close> reports an update, since \<open>NaN\<close> is not equal
  to itself. And an object inside an array is not compared once the depth has reached
  \<open>maxDepth\<close>, the array is then reported as updated: so it is for a value that holds the
  array \<open>[{}]\<close> below 10 nested objects.
\<close>

theorem identity_fails_on_NaN:
  "diff example_host (JNum NaN) (JNum NaN) no_options =
     Inr \<lparr>additions = Nested [], deletions = Nested [],
          updates = Change (JNum NaN) (JNum NaN)\<rparr> \<and>
   diff example_host
     (nest 10 (JObject 100 [(''items'', JArray 101 [JObject 102 []])]))
     (nest 10 (JObject 100 [(''items'', JArray 101 [JObject 102 []])]))
     no_options \<noteq> Inr empty_result"
proof
  have "\<not> nullish (JNum NaN)" and "typeof (JNum NaN) = typeof (JNum NaN)"
    and "\<not> (isArray (JNum NaN) \<and> isArray (JNum NaN))"
    and "\<not> (isPlainObject (JNum NaN) \<and> isPlainObject (JNum NaN))"
    by simp_all
  then show "diff example_host (JNum NaN) (JNum NaN) no_options =
     Inr \<lparr>additions = Nested [], deletions = Nested [],
          updates = Change (JNum NaN) (JNum NaN)\<rparr>"
    by (simp add: diff_def diff_primitives comparePrimitives_NaN updated_def empty_result_def)
  show "diff example_host
     (nest 10 (JObject 100 [(''items'', JArray 101 [JObject 102 []])]))
     (nest 10 (JObject 100 [(''items'', JArray 101 [JObject 102 []])]))
     no_options \<noteq> Inr empty_result"
    by (simp add: options_defs loop_eval eval_nat_numeral non_object_item_def object_item_def)
qed

section \<open>Arrays compared without order\<close>

lemma compareSorted_all2:
  "list_all2 (\<lambda>x y. comparePrimitives H x y c) xs ys \<Longrightarrow> compareSorted H c xs ys"
  by (induction xs ys rule: list_all2_induct) simp_all

lemma sort_key_same_keys:
  assumes "mset xs = mset ys"
  shows "map f (sort_key f xs) = map f (sort_key f ys)"
proof -
  have "map f (sort_key f xs) = sort (map f xs)" for xs :: "'a list"
    by (rule properties_for_sort [symmetric]) simp_all
  moreover have "mset (map f ys) = mset (map f xs)"
    using assms by simp
  then have "sort (map f xs) = sort (map f ys)"
    by (intro properties_for_sort) simp_all
  ultimately show ?thesis by simp
qed

lemma undefined_parts:
  assumes "mset xs = mset ys"
  shows "filter (\<lambda>x. x = JUndefined) xs = filter (\<lambda>x. x = JUndefined) ys"
proof -
  have rep: "filter (\<lambda>x. x = JUndefined) zs =
      replicate (length (filter (\<lambda>x. x = JUndefined) zs)) JUndefined" for zs
    by (induction zs) simp_all
  from assms have "mset (filter (\<lambda>x. x = JUndefined) xs) = mset (filter (\<lambda>x. x = JUndefined) ys)"
    by simp
  then have "length (filter (\<lambda>x. x = JUndefined) xs) = length (filter (\<lambda>x. x = JUndefined) ys)"
    by (rule mset_eq_length)
  with rep [of xs] rep [of ys] show ?thesis by simp
qed

lemma js_sort_permutation:
  assumes perm: "mset arr' = mset arr"
    and ties: "\<forall>x \<in> set arr. \<forall>y \<in> set arr. sort_tie H x y \<longrightarrow> comparePrimitives H x y c"
  shows "compareSorted H c (js_sort H arr) (js_sort H arr')"
proof -
  let ?f = "ToString H"
  let ?A = "filter (\<lambda>x. x \<noteq> JUndefined) arr" and ?B = "filter (\<lambda>x. x \<noteq> JUndefined) arr'"
  let ?U = "filter (\<lambda>x. x = JUndefined) arr"
  from perm have sets: "set arr' = set arr" by (rule mset_eq_setD)
  from perm have AB: "mset ?A = mset ?B" by simp
  have keys: "map ?f (sort_key ?f ?A) = map ?f (sort_key ?f ?B)"
    by (rule sort_key_same_keys [OF AB])
  then have len: "length (sort_key ?f ?A) = length (sort_key ?f ?B)"
    by (rule map_eq_imp_length_eq)
  have head: "list_all2 (\<lambda>x y. comparePrimitives H x y c) (sort_key ?f ?A) (sort_key ?f ?B)"
  proof (rule list_all2_all_nthI [OF len])
    fix n
    assume n: "n < length (sort_key ?f ?A)"
    let ?x = "sort_key ?f ?A ! n" and ?y = "sort_key ?f ?B ! n"
    from n have "?x \<in> set (sort_key ?f ?A)" by (rule nth_mem)
    then have x: "?x \<in> set arr" "?x \<noteq> JUndefined" by simp_all
    from n len have "n < length (sort_key ?f ?B)" by simp
    then have "?y \<in> set (sort_key ?f ?B)" by (rule nth_mem)
    with sets have y: "?y \<in> set arr" "?y \<noteq> JUndefined" by simp_all
    from keys have "map ?f (sort_key ?f ?A) ! n = map ?f (sort_key ?f ?B) ! n"
      by (rule arg_cong)
    with n len have "?f ?x = ?f ?y"
      by (simp only: nth_map)
    with x y have "sort_tie H ?x ?y" by (simp add: sort_tie_def)
    with ties x y show "comparePrimitives H ?x ?y c" by blast
  qed
  have tail: "list_all2 (\<lambda>x y. comparePrimitives H x y c) ?U ?U"
    by (simp add: list_all2_same comparePrimitives_def)
  from undefined_parts [OF perm] have "filter (\<lambda>x. x = JUndefined) arr' = ?U" .
  with list_all2_appendI [OF head tail] show ?thesis
    by (simp add: js_sort_def compareSorted_all2)
qed

text \<open>
  C6, as the code has it. Let \<open>arr\<close> be an array of primitives in which any two elements
  that the default sort does not order (the same string form, or both \<open>undefined\<close>) are
  equal for \<open>comparePrimitives\<close> with coercion; in particular no element is \<open>NaN\<close>. Then
  for every permutation \<open>arr'\<close> of \<open>arr\<close>,
  \<open>diff({k: arr}, {k: arr'}, {arrayOrderMatters: false})\<close> has three empty maps.
\<close>

theorem order_insensitive_primitive_arrays:
  assumes "list_all primitive_item arr" and "mset arr' = mset arr"
    and "\<forall>x \<in> set arr. \<forall>y \<in> set arr. sort_tie H x y \<longrightarrow> comparePrimitives H x y True"
  shows "diff H (JObject ra [(k, JArray r arr)]) (JObject rb [(k, JArray r' arr')])
           (no_options\<lparr>opt_arrayOrderMatters := Some False\<rparr>) = Inr empty_result"
proof -
  let ?ctx = "\<lparr>path = [k], depth = 0,
      options = mergedOptions (no_options\<lparr>opt_arrayOrderMatters := Some False\<rparr>)\<rparr>"
  from assms(2) have len: "length arr' = length arr" by (rule mset_eq_length)
  from assms(1) mset_eq_setD [OF assms(2)] have prim: "list_all primitive_item arr'"
    by (simp add: list_all_iff)
  have sorted: "compareSorted H True (js_sort H arr) (js_sort H arr')"
    by (rule js_sort_permutation [OF assms(2,3)])
  have "compareArrays H arr arr' ?ctx = Inr True"
  proof (cases "length arr = 0")
    case True
    with len show ?thesis by (simp add: compareArrays.simps)
  next
    case False
    with len assms(1) prim sorted show ?thesis
      by (simp add: compareArrays.simps mergedOptions_def no_options_def DEFAULT_OPTIONS_def)
  qed
  then show ?thesis
    by (simp add: options_defs internalDiff_objects compareObjects.simps object_defs
        additions_updates_loop.simps(2) shouldIgnoreProperty_def empty_result_def)
qed

theorem order_insensitive_primitive_arrays_witness:
  "list_all primitive_item [JStr ''js'', JStr ''ts'', JNum (Fin 1), JStr ''1''] \<and>
   mset [JStr ''1'', JStr ''ts'', JStr ''js'', JNum (Fin 1)] =
     mset [JStr ''js'', JStr ''ts'', JNum (Fin 1), JStr ''1''] \<and>
   sort_tie example_host (JNum (Fin 1)) (JStr ''1'') \<and>
   comparePrimitives example_host (JNum (Fin 1)) (JStr ''1'') True \<and>
   diff example_host
     (JObject 1 [(''x'', JArray 3 [JStr ''js'', JStr ''ts'', JNum (Fin 1), JStr ''1''])])
     (JObject 2 [(''x'', JArray 4 [JStr ''1'', JStr ''ts'', JStr ''js'', JNum (Fin 1)])])
     (no_options\<lparr>opt_arrayOrderMatters := Some False\<rparr>) = Inr empty_result"
proof -
  have number: "Number example_host ''1'' = Fin 1" "Number example_host ''js'' = NaN"
    "Number example_host ''ts'' = NaN"
    by (simp_all add: example_host_def is_digits_def digits_value_def)
  have string: "NumberToString example_host (Fin 1) = ''1''"
    by (simp add: example_host_def digit_char_def char_of_def bit_0)
  have ties: "\<forall>x \<in> set [JStr ''js'', JStr ''ts'', JNum (Fin 1), JStr ''1''].
      \<forall>y \<in> set [JStr ''js'', JStr ''ts'', JNum (Fin 1), JStr ''1''].
        sort_tie example_host x y \<longrightarrow> comparePrimitives example_host x y True"
    by (simp add: sort_tie_def comparePrimitives_def coerceValues_def num_eq_def number string)
  have perm: "mset [JStr ''1'', JStr ''ts'', JStr ''js'', JNum (Fin 1)] =
      mset [JStr ''js'', JStr ''ts'', JNum (Fin 1), JStr ''1'']"
    by (simp add: add.commute add.left_commute)
  have prim: "list_all primitive_item [JStr ''js'', JStr ''ts'', JNum (Fin 1), JStr ''1'']"
    by (simp add: primitive_item_def)
  from order_insensitive_primitive_arrays [OF prim perm ties, of 1 "''x''" 3 2 4] prim perm
  show ?thesis
    by (simp add: sort_tie_def comparePrimitives_def coerceValues_def num_eq_def number string)
qed

text \<open>
  C6 as it is stated fails on \<open>[NaN]\<close>, which is not equal to itself. (It also fails on
  \<open>[null, "null"]\<close> against \<open>["null", null]\<close>: the default sort compares string forms, so
  it leaves both arrays as they are, and \<open>null\<close> is then compared with \<open>"null"\<close>.)
\<close>

theorem order_insensitive_fails_on_NaN:
  "list_all primitive_item [JNum NaN] \<and>
   diff example_host (JObject 1 [(''x'', JArray 3 [JNum NaN])])
     (JObject 2 [(''x'', JArray 4 [JNum NaN])])
     (no_options\<lparr>opt_arrayOrderMatters := Some False\<rparr>) =
   Inr \<lparr>additions = Nested [], deletions = Nested [],
        updates = Nested [(''x'', Change (JArray 3 [JNum NaN]) (JArray 4 [JNum NaN]))]\<rparr>"
  by (simp add: options_defs loop_eval primitive_item_def js_sort_def)

lemma order_insensitive_null_string:
  "list_all primitive_item [JNull, JStr ''null''] \<and>
   diff example_host (JObject 1 [(''x'', JArray 3 [JNull, JStr ''null''])])
     (JObject 2 [(''x'', JArray 4 [JStr ''null'', JNull])])
     (no_options\<lparr>opt_arrayOrderMatters := Some False\<rparr>) =
   Inr \<lparr>additions = Nested [], deletions = Nested [],
        updates = Nested [(''x'', Change (JArray 3 [JNull, JStr ''null''])
                                       (JArray 4 [JStr ''null'', JNull]))]\<rparr>"
  by (simp add: options_defs loop_eval primitive_item_def js_sort_def)

section \<open>The engine writes new cells only\<close>

declare internalDiff_h.simps [simp del] compareObjects_h.simps [simp del]
  additions_updates_loop_h.simps [simp del] compareArrays_h.simps [simp del]
  elements_loop_h.simps [simp del]

lemma preserves_refl: "preserves h h"
  by (simp add: preserves_def)

lemma preserves_trans: "preserves h1 h2 \<Longrightarrow> preserves h2 h3 \<Longrightarrow> preserves h1 h3"
  by (auto simp: preserves_def)

lemma alloc_preserves: "alloc c h = (a, h') \<Longrightarrow> preserves h h' \<and> a = length h"
  by (auto simp: alloc_def preserves_def nth_append)

lemma preserves_length: "preserves h h' \<Longrightarrow> length h \<le> length h'"
  by (simp add: preserves_def)

lemma new_result_preserves:
  assumes "new_result h = (result, h1)"
  shows "preserves h h1" and "fresh_maps h result"
proof -
  from assms obtain a d u h2 h3 where
    a: "alloc (ObjectCell []) h = (a, h2)" and d: "alloc (ObjectCell []) h2 = (d, h3)"
    and u: "alloc (ObjectCell []) h3 = (u, h1)"
    and r: "result = \<lparr>h_additions = HRef a, h_deletions = HRef d, h_updates = HRef u\<rparr>"
    by (auto simp: new_result_def split: prod.splits)
  from alloc_preserves [OF a] alloc_preserves [OF d] alloc_preserves [OF u]
  show "preserves h h1"
    by (blast intro: preserves_trans)
  from alloc_preserves [OF a] alloc_preserves [OF d] alloc_preserves [OF u] r
  show "fresh_maps h result"
    by (auto simp: fresh_maps_def dest!: preserves_length)
qed

lemma from_to_preserves: "from_to a b h = (u, h1) \<Longrightarrow> preserves h h1"
  by (auto simp: from_to_def split: prod.splits dest: alloc_preserves)

lemma spread_preserves: "spread arr h = (copy, h1) \<Longrightarrow> preserves h h1 \<and> copy = HRef (length h)"
  by (auto simp: spread_def split: prod.splits dest: alloc_preserves)

lemma update_preserves:
  "preserves hb h \<Longrightarrow> length hb \<le> a \<Longrightarrow> preserves hb (h[a := c])"
  by (auto simp: preserves_def)

lemma assign_preserves:
  "assign (HRef a) key v h = Some h' \<Longrightarrow> preserves hb h \<Longrightarrow> length hb \<le> a \<Longrightarrow> preserves hb h'"
  by (auto simp: update_preserves split: if_splits cell.splits)

lemma sort_in_place_preserves:
  "preserves hb h \<Longrightarrow> length hb \<le> a \<Longrightarrow> preserves hb (sort_in_place H (HRef a) h)"
  by (auto simp: update_preserves split: cell.splits)

declare assign.simps [simp del] sort_in_place.simps [simp del]

lemma fresh_maps_weaken: "fresh_maps h result \<Longrightarrow> preserves hb h \<Longrightarrow> fresh_maps hb result"
  by (auto simp: fresh_maps_def dest!: preserves_length)

lemma assign_map_preserves:
  assumes "fresh_maps hb result" and "preserves hb h"
  shows "assign (h_additions result) key v h = Some h' \<Longrightarrow> preserves hb h'"
    and "assign (h_deletions result) key v h = Some h' \<Longrightarrow> preserves hb h'"
    and "assign (h_updates result) key v h = Some h' \<Longrightarrow> preserves hb h'"
  using assms by (auto simp: fresh_maps_def elim: assign_preserves)

lemma attach_nested_h_preserves:
  assumes "attach_nested_h key n result h = Some h'" and "fresh_maps hb result"
    and "preserves hb h"
  shows "preserves hb h'"
proof -
  from assms(1) obtain hasA hasD hasU h1 h2 where
    1: "(if hasA then assign (h_additions result) key (h_additions n) h else Some h) = Some h1"
    and 2: "(if hasD then assign (h_deletions result) key (h_deletions n) h1 else Some h1) = Some h2"
    and 3: "(if hasU then assign (h_updates result) key (h_updates n) h2 else Some h2) = Some h'"
    by (auto simp: attach_nested_h_def split: option.splits)
  from 1 assms(2,3) have "preserves hb h1"
    by (auto split: if_splits intro: assign_map_preserves)
  with 2 assms(2) have "preserves hb h2"
    by (auto split: if_splits intro: assign_map_preserves)
  with 3 assms(2) show ?thesis
    by (auto split: if_splits intro: assign_map_preserves)
qed

lemma deletions_loop_h_preserves:
  "deletions_loop_h objA objB ctx ks result h = Some h' \<Longrightarrow> fresh_maps hb result \<Longrightarrow>
   preserves hb h \<Longrightarrow> preserves hb h'"
proof (induction ks arbitrary: h)
  case Nil
  then show ?case by simp
next
  case (Cons key ks)
  then show ?case
    by (auto split: if_splits option.splits intro: assign_map_preserves)
qed

lemma frame_internalDiff:
  assumes arrays: "\<And>H a b c h e h'. compareArrays_h n H a b c h = Some (e, h') \<Longrightarrow> preserves h h'"
    and objects: "\<And>H a b c h r h'. compareObjects_h n H a b c h = Some (r, h') \<Longrightarrow> preserves h h'"
    and run: "internalDiff_h (Suc n) H a b c h = Some (r, h')"
  shows "preserves h h'"
proof -
  obtain result h1 where nr: "new_result h = (result, h1)" by (cases "new_result h")
  note p1 = new_result_preserves(1) [OF nr]
  from run nr have "preserves h1 h'"
    by (auto simp: internalDiff_h.simps preserves_refl
        split: if_splits option.splits prod.splits
        dest: from_to_preserves arrays objects
        intro: preserves_trans [OF arrays from_to_preserves])
  with p1 show ?thesis by (rule preserves_trans)
qed

lemma frame_compareObjects:
  assumes loop: "\<And>H a b c ks result h h' hb.
        additions_updates_loop_h n H a b c ks result h = Some h' \<Longrightarrow>
        fresh_maps hb result \<Longrightarrow> preserves hb h \<Longrightarrow> preserves hb h'"
    and run: "compareObjects_h (Suc n) H a b c h = Some (r, h')"
  shows "preserves h h'"
proof -
  obtain result h1 where nr: "new_result h = (result, h1)" by (cases "new_result h")
  note p1 = new_result_preserves(1) [OF nr] and f1 = new_result_preserves(2) [OF nr]
  from run nr obtain h2 where
    d: "deletions_loop_h a b c (keys_h h1 a) result h1 = Some h2"
    and l: "additions_updates_loop_h n H a b c (keys_h h1 b) result h2 = Some h'"
    by (auto simp: compareObjects_h.simps split: option.splits)
  from deletions_loop_h_preserves [OF d f1 p1] have p2: "preserves h h2" .
  from loop [OF l f1 p2] show ?thesis .
qed

lemma frame_compareArrays:
  assumes loop: "\<And>H a b c i h e h'. elements_loop_h n H a b c i h = Some (e, h') \<Longrightarrow> preserves h h'"
    and run: "compareArrays_h (Suc n) H a b c h = Some (e, h')"
  shows "preserves h h'"
proof -
  have sorted: "preserves h (sort_in_place H copyB h2)"
    if "spread a h = (copyA, h1)" and "spread b (sort_in_place H copyA h1) = (copyB, h2)"
    for copyA h1 copyB h2
  proof -
    from spread_preserves [OF that(1)] have p1: "preserves h h1" and a: "copyA = HRef (length h)"
      by simp_all
    from sort_in_place_preserves [OF p1, of "length h" H] a
    have p2: "preserves h (sort_in_place H copyA h1)" by simp
    from spread_preserves [OF that(2)]
    have p3: "preserves (sort_in_place H copyA h1) h2"
      and b: "copyB = HRef (length (sort_in_place H copyA h1))"
      by simp_all
    from preserves_trans [OF p2 p3] have p4: "preserves h h2" .
    from preserves_length [OF p2] have "length h \<le> length (sort_in_place H copyA h1)" .
    from sort_in_place_preserves [OF p4 this, of H] b show ?thesis by simp
  qed
  from run show ?thesis
    by (auto simp: compareArrays_h.simps preserves_refl
        split: if_splits prod.splits dest: loop sorted)
qed

lemma frame_elements_loop:
  assumes inner: "\<And>H a b c h r h'. internalDiff_h n H a b c h = Some (r, h') \<Longrightarrow> preserves h h'"
    and loop: "\<And>H a b c i h e h'. elements_loop_h n H a b c i h = Some (e, h') \<Longrightarrow> preserves h h'"
    and run: "elements_loop_h (Suc n) H a b c i h = Some (e, h')"
  shows "preserves h h'"
proof -
  let ?itemA = "item_h (elements_h h a) i" and ?itemB = "item_h (elements_h h b) i"
  consider
    (finished) "\<not> i < length (elements_h h a)"
  | (primitives) "i < length (elements_h h a)"
      "non_object_item (view h ?itemA) \<and> non_object_item (view h ?itemB)"
  | (objects) "i < length (elements_h h a)"
      "\<not> (non_object_item (view h ?itemA) \<and> non_object_item (view h ?itemB))"
      "object_item (view h ?itemA) \<and> object_item (view h ?itemB) \<and> depth_left c"
  | (mismatch) "i < length (elements_h h a)"
      "\<not> (non_object_item (view h ?itemA) \<and> non_object_item (view h ?itemB))"
      "\<not> (object_item (view h ?itemA) \<and> object_item (view h ?itemB) \<and> depth_left c)"
    by blast
  then show ?thesis
  proof cases
    case finished
    with run have "h' = h"
      by (simp only: elements_loop_h.simps simp_thms if_True if_False) simp
    then show ?thesis by (simp add: preserves_refl)
  next
    case primitives
    show ?thesis
    proof (cases "comparePrimitives H (view h ?itemA) (view h ?itemB)
        (enableTypeCoercion (options c))")
      case True
      with primitives run have "elements_loop_h n H a b c (i + 1) h = Some (e, h')"
        by (simp only: elements_loop_h.simps simp_thms if_True if_False)
      from loop [OF this] show ?thesis .
    next
      case False
      with primitives run have "h' = h"
        by (simp only: elements_loop_h.simps simp_thms if_True if_False) simp
      then show ?thesis by (simp add: preserves_refl)
    qed
  next
    case objects
    with run obtain diffResult h1 differs where
      n: "internalDiff_h n H ?itemA ?itemB
            (c\<lparr>depth := depth c + 1, path := path c @ [index_toString i]\<rparr>) h =
          Some (diffResult, h1)"
      and rest: "(if differs then Some (False, h1)
                  else elements_loop_h n H a b c (i + 1) h1) = Some (e, h')"
      by (simp only: elements_loop_h.simps simp_thms if_True if_False
          split: option.splits prod.splits) auto
    from inner [OF n] have p1: "preserves h h1" .
    show ?thesis
    proof (cases differs)
      case True
      with rest have "h' = h1" by simp
      with p1 show ?thesis by simp
    next
      case False
      with rest have "elements_loop_h n H a b c (i + 1) h1 = Some (e, h')" by simp
      from preserves_trans [OF p1 loop [OF this]] show ?thesis .
    qed
  next
    case mismatch
    with run have "h' = h"
      by (simp only: elements_loop_h.simps simp_thms if_True if_False) simp
    then show ?thesis by (simp add: preserves_refl)
  qed
qed

lemma frame_loop:
  assumes inner: "\<And>H a b c h r h'. internalDiff_h n H a b c h = Some (r, h') \<Longrightarrow> preserves h h'"
    and again: "\<And>H a b c ks result h h' hb.
        additions_updates_loop_h n H a b c ks result h = Some h' \<Longrightarrow>
        fresh_maps hb result \<Longrightarrow> preserves hb h \<Longrightarrow> preserves hb h'"
    and arrays: "\<And>H a b c h e h'. compareArrays_h n H a b c h = Some (e, h') \<Longrightarrow> preserves h h'"
    and run: "additions_updates_loop_h (Suc n) H a b c ks result h = Some h'"
    and fresh: "fresh_maps hb result" and base: "preserves hb h"
  shows "preserves hb h'"
proof (cases ks)
  case Nil
  with run base show ?thesis by (simp add: additions_updates_loop_h.simps)
next
  case (Cons key keysB)
  have loop: "preserves hb h3"
    if "additions_updates_loop_h n H a b c keysB result h2 = Some h3" and "preserves hb h2"
    for h2 h3
    using again [OF that(1) fresh that(2)] .
  let ?valueA = "get_h h a key" and ?valueB = "get_h h b key"
  consider
    (ignored) "shouldIgnoreProperty (currentPath c key) (ignoreProperties (options c))"
  | (addition) "\<not> shouldIgnoreProperty (currentPath c key) (ignoreProperties (options c))"
      "\<not> has_key_h h a key"
  | (nested) "\<not> shouldIgnoreProperty (currentPath c key) (ignoreProperties (options c))"
      "has_key_h h a key"
      "depth_left c \<and> isPlainObject (view h ?valueA) \<and> isPlainObject (view h ?valueB)"
  | (array) "\<not> shouldIgnoreProperty (currentPath c key) (ignoreProperties (options c))"
      "has_key_h h a key"
      "\<not> (depth_left c \<and> isPlainObject (view h ?valueA) \<and> isPlainObject (view h ?valueB))"
      "isArray (view h ?valueA) \<and> isArray (view h ?valueB)"
  | (primitive) "\<not> shouldIgnoreProperty (currentPath c key) (ignoreProperties (options c))"
      "has_key_h h a key"
      "\<not> (depth_left c \<and> isPlainObject (view h ?valueA) \<and> isPlainObject (view h ?valueB))"
      "\<not> (isArray (view h ?valueA) \<and> isArray (view h ?valueB))"
    by blast
  then show ?thesis
  proof cases
    case ignored
    with run Cons have "additions_updates_loop_h n H a b c keysB result h = Some h'"
      by (simp add: additions_updates_loop_h.simps)
    from loop [OF this base] show ?thesis .
  next
    case addition
    with run Cons obtain h1 where
      w: "assign (h_additions result) key ?valueB h = Some h1"
      and rest: "additions_updates_loop_h n H a b c keysB result h1 = Some h'"
      by (auto simp: additions_updates_loop_h.simps split: option.splits)
    from assign_map_preserves(1) [OF fresh base w] have "preserves hb h1" .
    from loop [OF rest this] show ?thesis .
  next
    case nested
    with run Cons obtain nestedResult h1 h2 where
      n: "internalDiff_h n H ?valueA ?valueB
            (c\<lparr>depth := depth c + 1, path := path c @ [key]\<rparr>) h = Some (nestedResult, h1)"
      and w: "attach_nested_h key nestedResult result h1 = Some h2"
      and rest: "additions_updates_loop_h n H a b c keysB result h2 = Some h'"
      by (simp only: additions_updates_loop_h.simps list.case simp_thms if_True if_False
          split: option.splits prod.splits) auto
    from preserves_trans [OF base inner [OF n]] have "preserves hb h1" .
    from attach_nested_h_preserves [OF w fresh this] have "preserves hb h2" .
    from loop [OF rest this] show ?thesis .
  next
    case array
    with run Cons obtain equal h1 where
      e: "compareArrays_h n H ?valueA ?valueB (c\<lparr>path := path c @ [key]\<rparr>) h = Some (equal, h1)"
      and rest: "(if \<not> equal
          then (case from_to ?valueA ?valueB h1 of (u, h2) \<Rightarrow>
                (case assign (h_updates result) key u h2 of
                   None \<Rightarrow> None
                 | Some h3 \<Rightarrow> additions_updates_loop_h n H a b c keysB result h3))
          else additions_updates_loop_h n H a b c keysB result h1) = Some h'"
      by (simp only: additions_updates_loop_h.simps list.case simp_thms if_True if_False
          split: option.splits prod.splits) auto
    from preserves_trans [OF base arrays [OF e]] have p1: "preserves hb h1" .
    show ?thesis
    proof (cases equal)
      case True
      with rest have "additions_updates_loop_h n H a b c keysB result h1 = Some h'" by simp
      from loop [OF this p1] show ?thesis .
    next
      case False
      with rest obtain u h2 h3 where
        ft: "from_to ?valueA ?valueB h1 = (u, h2)"
        and w: "assign (h_updates result) key u h2 = Some h3"
        and rest': "additions_updates_loop_h n H a b c keysB result h3 = Some h'"
        by (auto split: prod.splits option.splits)
      from preserves_trans [OF p1 from_to_preserves [OF ft]] have "preserves hb h2" .
      from assign_map_preserves(3) [OF fresh this w] have "preserves hb h3" .
      from loop [OF rest' this] show ?thesis .
    qed
  next
    case primitive
    show ?thesis
    proof (cases "comparePrimitives H (view h ?valueA) (view h ?valueB)
        (enableTypeCoercion (options c))")
      case True
      with primitive run Cons
      have "additions_updates_loop_h n H a b c keysB result h = Some h'"
        by (simp only: additions_updates_loop_h.simps list.case simp_thms if_True if_False)
      from loop [OF this base] show ?thesis .
    next
      case False
      with primitive run Cons obtain u h1 h2 where
        ft: "from_to ?valueA ?valueB h = (u, h1)"
        and w: "assign (h_updates result) key u h1 = Some h2"
        and rest: "additions_updates_loop_h n H a b c keysB result h2 = Some h'"
        by (simp only: additions_updates_loop_h.simps list.case simp_thms if_True if_False
            split: option.splits prod.splits) auto
      from preserves_trans [OF base from_to_preserves [OF ft]] have "preserves hb h1" .
      from assign_map_preserves(3) [OF fresh this w] have "preserves hb h2" .
      from loop [OF rest this] show ?thesis .
    qed
  qed
qed

lemma engine_preserves:
  shows "internalDiff_h n H a b c h = Some (r, h') \<Longrightarrow> preserves h h'"
    and "compareObjects_h n H a b c h = Some (r, h') \<Longrightarrow> preserves h h'"
    and "additions_updates_loop_h n H a b c ks result h = Some h' \<Longrightarrow>
         fresh_maps hb result \<Longrightarrow> preserves hb h \<Longrightarrow> preserves hb h'"
    and "compareArrays_h n H a b c h = Some (e, h') \<Longrightarrow> preserves h h'"
    and "elements_loop_h n H a b c i h = Some (e, h') \<Longrightarrow> preserves h h'"
proof (induction n arbitrary: H a b c h r h' ks result hb e i)
  case 0
  {
    case 1
    then show ?case by (simp add: internalDiff_h.simps)
  next
    case 2
    then show ?case by (simp add: compareObjects_h.simps)
  next
    case 3
    then show ?case by (simp add: additions_updates_loop_h.simps)
  next
    case 4
    then show ?case by (simp add: compareArrays_h.simps)
  next
    case 5
    then show ?case by (simp add: elements_loop_h.simps)
  }
next
  case (Suc n)
  {
    case 1
    from frame_internalDiff [OF Suc.IH(4) Suc.IH(2) 1] show ?case .
  next
    case 2
    from frame_compareObjects [OF Suc.IH(3) 2] show ?case .
  next
    case 3
    from frame_loop [OF Suc.IH(1) Suc.IH(3) Suc.IH(4) 3] show ?case .
  next
    case 4
    from frame_compareArrays [OF Suc.IH(5) 4] show ?case .
  next
    case 5
    from frame_elements_loop [OF Suc.IH(1) Suc.IH(5) 5] show ?case .
  }
qed

section \<open>Input immutability\<close>

text \<open>
  C9. A call of \<open>diff\<close> that returns leaves every cell of the store it was started in as it
  was: the store after the call is at least as long, and each address of the store before
  the call holds the same cell. These cells are the two input values with all the objects
  and arrays nested in them and the options object of the caller; what the engine writes
  (the maps of its results, the pairs \<open>{from, to}\<close>, the copies that it sorts) is in cells
  allocated during the call.
\<close>

theorem inputs_unchanged:
  assumes "diff_h n H objectA objectB opts h = Some (result, h')"
  shows "length h \<le> length h' \<and> (\<forall>a < length h. h' ! a = h ! a)"
proof -
  from assms obtain o' where
    "internalDiff_h n H objectA objectB \<lparr>path = [], depth = 0, options = mergedOptions o'\<rparr> h =
     Some (result, h')"
    by (auto simp: diff_h_def split: option.splits)
  from engine_preserves(1) [OF this] show ?thesis
    by (simp add: preserves_def)
qed

theorem inputs_unchanged_witness:
  "diff_h 10 example_host (HRef 0) (HRef 3) (HRef 6) example_store =
     Some (\<lparr>h_additions = HRef 10, h_deletions = HRef 11, h_updates = HRef 12\<rparr>,
           example_store @ example_allocated) \<and>
   (example_store @ example_allocated) ! 1 = ArrayCell [HStr ''ts'', HStr ''js''] \<and>
   (example_store @ example_allocated) ! 4 = ArrayCell [HStr ''js'', HStr ''ts''] \<and>
   (example_store @ example_allocated) ! 6 =
     OptionsCell (no_options\<lparr>opt_arrayOrderMatters := Some False\<rparr>) \<and>
   (example_store @ example_allocated) ! 13 = ArrayCell [HStr ''js'', HStr ''ts''] \<and>
   (example_store @ example_allocated) ! 14 = ArrayCell [HStr ''js'', HStr ''ts'']"
proof -
  have run: "diff_h 10 example_host (HRef 0) (HRef 3) (HRef 6) example_store =
     Some (\<lparr>h_additions = HRef 10, h_deletions = HRef 11, h_updates = HRef 12\<rparr>,
           example_store @ example_allocated)"
    by code_simp
  from inputs_unchanged [OF run] run show ?thesis
    by (simp add: example_store_def example_allocated_def)
qed

section \<open>The call stack\<close>






















lemma agree_exhausted: "agree (Suc need) 0 (Inl RangeError) y"
  by (simp add: agree_def)












lemma descents_path [simp]: "descents (c\<lparr>path := p\<rparr>) v = descents c v"
  by (simp add: descents_def split: jsnum.splits)








lemma nest_plain: "isPlainObject (nest (Suc n) v)"
  by simp






end
